theory Spec2Isabelle
  imports Complex_Main "HOL-Library.Log_Nat"
begin

section \<open>Numbers of the runtime\<close>

text \<open>
  A TypeScript \<open>number\<close> is an IEEE-754 double. A finite double is identified with the
  rational it denotes; an arithmetic operation is the exact operation followed by
  rounding to the nearest double, ties to the even significand (53 bits, gradual
  underflow below \<open>2^-1022\<close>). Overflow to \<open>Infinity\<close> (magnitudes from \<open>2^1024\<close> on)
  and \<open>NaN\<close> are outside the model: the numbers of a trace are timestamps and durations
  in seconds, far inside the range, and no operation of the program yields \<open>NaN\<close> from
  finite numbers.
\<close>

type_synonym number = rat

definition pow2 :: "int \<Rightarrow> rat" where
  "pow2 e = (if 0 \<le> e then 2 ^ nat e else 1 / 2 ^ nat (- e))"

text \<open>The binary exponent \<open>\<lfloor>log\<^sub>2 x\<rfloor>\<close> of a positive rational.\<close>

definition ilog2 :: "rat \<Rightarrow> int" where
  "ilog2 x = (case quotient_of x of (a, b) \<Rightarrow>
     let k = bitlen a - bitlen b in if pow2 k \<le> x then k else k - 1)"

definition round_half_even :: "rat \<Rightarrow> int" where
  "round_half_even q = (let f = \<lfloor>q\<rfloor>; d = q - of_int f in
     if d < 1 / 2 then f else if 1 / 2 < d then f + 1 else if even f then f else f + 1)"

definition js_round :: "rat \<Rightarrow> number" where
  "js_round x = (if x = 0 then 0 else
     let e = max (ilog2 \<bar>x\<bar> - 52) (- 1074); m = round_half_even (\<bar>x\<bar> / pow2 e)
     in sgn x * of_int m * pow2 e)"

definition js_add :: "number \<Rightarrow> number \<Rightarrow> number" where
  "js_add x y = js_round (x + y)"

definition js_mul :: "number \<Rightarrow> number \<Rightarrow> number" where
  "js_mul x y = js_round (x * y)"

text \<open>Division; the divisors of this program are call counts, which are at least 1.\<close>

definition js_div :: "number \<Rightarrow> number \<Rightarrow> number" where
  "js_div x y = js_round (x / y)"

text \<open>\<open>String(n)\<close> of a non-negative integer: its decimal digits.\<close>

definition digit :: "nat \<Rightarrow> char" where
  "digit d = char_of (48 + d)"

fun decimal :: "nat \<Rightarrow> string" where
  "decimal n = (if n < 10 then [digit n] else decimal (n div 10) @ [digit (n mod 10)])"

declare decimal.simps [simp del]

section \<open>The trace document model (\<open>types/index.ts\<close>)\<close>

text \<open>
  A value of type \<open>any\<close> that came out of \<open>JSON.parse\<close>: null, a boolean, a number, a
  string, an array or an object; \<open>JUndefined\<close> is the value of a field the document left
  out. An object is the list of its entries in the order \<open>Object.keys\<close> enumerates them.
  A symbol cannot come out of JSON, so the \<open>typeof value === 'symbol'\<close> branches of the
  formatters have no counterpart.
\<close>

datatype jvalue =
    JUndefined
  | JNull
  | JBool bool
  | JNum number
  | JStr string
  | JArr "jvalue list"
  | JObj "(string \<times> jvalue) list"

datatype event_kind = Call | Return | CallReturn

record parameter =
  ptype :: string
  pname :: string
  pvalue :: jvalue

text \<open>
  \<open>TreeNodeData\<close>. \<open>depth\<close> is the call-stack depth that the tracer counts from 0, a natural
  number.
\<close>

record treeNodeData =
  event :: event_kind
  method_name :: string
  parameters :: "parameter list option"
  return_value :: jvalue
  depth :: nat
  defined_class :: "string option"
  path :: "string option"
  lineno :: "nat option"
  start_time :: "number option"
  end_time :: "number option"
  duration :: "number option"

text \<open>
  \<open>TreeNodeDisplay\<close> without its two links: the fields of the event, and \<open>id\<close>
  (here \<open>node_id\<close>), \<open>isExpanded\<close> and \<open>level\<close>.
\<close>

record nodeInfo = treeNodeData +
  node_id :: string
  isExpanded :: bool
  level :: nat

text \<open>
  A forest handed to a view: a node owns the list of its children. The \<open>parent\<close>
  back-reference is kept in the heap model of the reconstruction only.
\<close>

datatype treeNodeDisplay = TreeNode (info: nodeInfo) (children: "treeNodeDisplay list")

section \<open>The value formatters (\<open>utils/treeTransform.ts\<close>)\<close>

text \<open>
  \<open>formatDuration\<close>. \<open>toFixed\<close> is the runtime's \<open>Number.prototype.toFixed\<close> and is a
  parameter; the micro sign is the two bytes of its UTF-8 encoding.
\<close>

definition micro_sign :: string where
  "micro_sign = [char_of (206 :: nat), char_of (188 :: nat)]"

definition formatDuration :: "(number \<Rightarrow> nat \<Rightarrow> string) \<Rightarrow> number option \<Rightarrow> string" where
  "formatDuration toFixed d =
     (case d of
        None \<Rightarrow> []
      | Some x \<Rightarrow>
          if x < js_round (1 / 1000) then toFixed (js_mul x 1000000) 1 @ micro_sign @ ''s''
          else if x < 1 then toFixed (js_mul x 1000) 1 @ ''ms''
          else toFixed x 3 @ ''s'')"

text \<open>
  \<open>JSON.stringify\<close> of a string: the quotation mark and the backslash are escaped, the
  control characters below \<open>0x20\<close> are written \<open>\b \t \n \f \r\<close> or \<open>\u00XX\<close>.
\<close>

definition dquote :: char where
  "dquote = CHR 0x22"

definition backslash :: char where
  "backslash = CHR 0x5C"

definition hexdigit :: "nat \<Rightarrow> char" where
  "hexdigit d = (if d < 10 then char_of (48 + d) else char_of (87 + d))"

definition json_escape :: "char \<Rightarrow> string" where
  "json_escape c =
     (let n = of_char c :: nat in
      if c = dquote then [backslash, dquote]
      else if c = backslash then [backslash, backslash]
      else if n = 8 then [backslash, CHR ''b'']
      else if n = 9 then [backslash, CHR ''t'']
      else if n = 10 then [backslash, CHR ''n'']
      else if n = 12 then [backslash, CHR ''f'']
      else if n = 13 then [backslash, CHR ''r'']
      else if n < 32 then [backslash, CHR ''u'', CHR ''0'', CHR ''0'', hexdigit (n div 16), hexdigit (n mod 16)]
      else [c])"

definition json_stringify :: "string \<Rightarrow> string" where
  "json_stringify s = [dquote] @ concat (map json_escape s) @ [dquote]"

text \<open>
  \<open>s.slice(0, end)\<close>: a negative \<open>end\<close> counts from the end of the string, and the result
  is clamped to the string.
\<close>

definition slice0 :: "string \<Rightarrow> int \<Rightarrow> string" where
  "slice0 s e =
     (let n = int (length s); k = (if e < 0 then max (n + e) 0 else min e n)
      in take (nat k) s)"

text \<open>
  \<open>formatValue(value, maxLength)\<close>. \<open>numToString\<close> is the runtime's \<open>String\<close> on a
  number; \<open>wholeToString\<close> is what it does on a non-negative whole number. \<open>maxLength\<close> is
  given by every caller (the default of 50 stands for a missing argument).
\<close>

definition wholeToString :: "number \<Rightarrow> string" where
  "wholeToString x = decimal (nat \<lfloor>x\<rfloor>)"

fun formatValue :: "(number \<Rightarrow> string) \<Rightarrow> jvalue \<Rightarrow> int \<Rightarrow> string" where
  "formatValue numToString JNull maxLength = ''nil''"
| "formatValue numToString (JBool b) maxLength = (if b then ''true'' else ''false'')"
| "formatValue numToString (JNum x) maxLength = numToString x"
| "formatValue numToString (JStr s) maxLength =
     (let quoted = json_stringify s in
      if int (length quoted) > maxLength
      then slice0 quoted (maxLength - 3) @ ''...'' @ [dquote]
      else quoted)"
| "formatValue numToString (JArr []) maxLength = ''[]''"
| "formatValue numToString (JArr [v]) maxLength =
     ''['' @ formatValue numToString v 20 @ '']''"
| "formatValue numToString (JArr (v # w # vs)) maxLength =
     ''['' @ formatValue numToString v 15 @ '', ... +''
       @ decimal (length (v # w # vs) - 1) @ '' more]''"
| "formatValue numToString (JObj []) maxLength = ''{}''"
| "formatValue numToString (JObj [(k, v)]) maxLength =
     (let formatted = ''{'' @ k @ '': '' @ formatValue numToString v 20 @ ''}'' in
      if int (length formatted) > maxLength then ''{'' @ k @ '': ...}'' else formatted)"
| "formatValue numToString (JObj ((k, v) # e # es)) maxLength =
     ''{'' @ k @ '': ..., +'' @ decimal (length ((k, v) # e # es) - 1) @ '' more}''"
| "formatValue numToString JUndefined maxLength =
     (let str = ''undefined'' in
      if int (length str) > maxLength then slice0 str (maxLength - 3) @ ''...'' else str)"


text \<open>
  The duration badge of a row (\<open>TreeNodeItem\<close> in \<open>components/TreeView.tsx\<close>):
  \<open>duration && <span>[{duration}]</span>\<close> renders nothing for the empty string.
\<close>

definition durationBadge :: "(number \<Rightarrow> nat \<Rightarrow> string) \<Rightarrow> nodeInfo \<Rightarrow> string option" where
  "durationBadge toFixed node =
     (let d = formatDuration toFixed (duration node) in
      if d = [] then None else Some (''['' @ d @ '']''))"

section \<open>Tree reconstruction (\<open>transformTreeData\<close> in \<open>utils/treeTransform.ts\<close>)\<close>

text \<open>
  The nodes of \<open>transformTreeData\<close> are objects that the arrays \<open>nodes\<close> and \<open>stack\<close>, the
  dictionary \<open>callStack\<close> and the \<open>children\<close> arrays of other nodes all refer to, and a
  \<open>return\<close> event writes into such an object after it has been attached. The model keeps
  the objects in a heap: the address of a node is the index of the event it was created
  from, and every array holds addresses.
\<close>

record cell =
  cinfo :: nodeInfo
  cchildren :: "nat list"
  cparent :: "nat option"

type_synonym heap = "nat \<Rightarrow> cell option"

text \<open>
  The variables of the loop. The head of \<open>stack\<close> is the top of the source's array (its
  last element); \<open>nodes\<close> and \<open>cchildren\<close> grow at the end, as \<open>push\<close> does.
\<close>

record rstate =
  cells :: heap
  nodes :: "nat list"
  stack :: "nat list"
  callStack :: "string \<Rightarrow> nat option"

text \<open>The template string \<open>`${depth}-${method_name}`\<close>.\<close>

definition callKey :: "nat \<Rightarrow> string \<Rightarrow> string" where
  "callKey d m = decimal d @ ''-'' @ m"

text \<open>
  \<open>{...event, id: `node-${index}`, children: [], isExpanded: true, level: event.depth}\<close>
\<close>

definition newNodeInfo :: "nat \<Rightarrow> treeNodeData \<Rightarrow> nodeInfo" where
  "newNodeInfo index ev =
     \<lparr> event = event ev, method_name = method_name ev, parameters = parameters ev,
       return_value = return_value ev, depth = depth ev, defined_class = defined_class ev,
       path = path ev, lineno = lineno ev, start_time = start_time ev,
       end_time = end_time ev, duration = duration ev,
       node_id = ''node-'' @ decimal index, isExpanded = True, level = depth ev \<rparr>"

text \<open>
  The \<open>while\<close> loop: pop every node whose level is at least the new node's and delete
  the popped node's call key. An address with no cell does not occur (a reference always
  has its object); the loop stops there.
\<close>

fun popLoop :: "heap \<Rightarrow> nat \<Rightarrow> nat list \<Rightarrow> (string \<Rightarrow> nat option)
    \<Rightarrow> nat list \<times> (string \<Rightarrow> nat option)" where
  "popLoop h lvl [] cs = ([], cs)"
| "popLoop h lvl (a # st) cs =
     (case h a of
        None \<Rightarrow> (a # st, cs)
      | Some popped \<Rightarrow>
          if level (cinfo popped) \<ge> lvl
          then popLoop h lvl st
                 (cs (callKey (depth (cinfo popped)) (method_name (cinfo popped)) := None))
          else (a # st, cs))"

text \<open>The body of \<open>events.forEach((event, index) => ...)\<close>.\<close>

definition mergeReturn :: "treeNodeData \<Rightarrow> cell \<Rightarrow> cell" where
  "mergeReturn ev callNode =
     callNode \<lparr> cinfo := (cinfo callNode)
       \<lparr> return_value := return_value ev, end_time := end_time ev, duration := duration ev \<rparr> \<rparr>"

definition processEvent :: "rstate \<Rightarrow> nat \<times> treeNodeData \<Rightarrow> rstate" where
  "processEvent s ie =
     (case ie of (index, ev) \<Rightarrow>
      if event ev = Return then
        (let key = callKey (depth ev) (method_name ev) in
         case callStack s key of
           None \<Rightarrow> s
         | Some a \<Rightarrow>
             (case cells s a of
                None \<Rightarrow> s
              | Some callNode \<Rightarrow>
                  s \<lparr> cells := (cells s) (a \<mapsto> mergeReturn ev callNode),
                      callStack := (callStack s) (key := None) \<rparr>))
      else
        (let node = newNodeInfo index ev;
             (stack1, callStack1) = popLoop (cells s) (level node) (stack s) (callStack s);
             cells1 = (case stack1 of
                         [] \<Rightarrow> cells s
                       | p # _ \<Rightarrow>
                           (case cells s p of
                              None \<Rightarrow> cells s
                            | Some parent \<Rightarrow>
                                (cells s) (p \<mapsto> parent \<lparr> cchildren := cchildren parent @ [index] \<rparr>)));
             cell = \<lparr> cinfo = node, cchildren = [],
                      cparent = (case stack1 of [] \<Rightarrow> None | p # _ \<Rightarrow> Some p) \<rparr>;
             nodes1 = (case stack1 of [] \<Rightarrow> nodes s @ [index] | _ # _ \<Rightarrow> nodes s);
             callStack2 = (if event ev = Call
                           then callStack1 (callKey (depth ev) (method_name ev) \<mapsto> index)
                           else callStack1)
         in \<lparr> cells = cells1 (index \<mapsto> cell), nodes = nodes1,
              stack = index # stack1, callStack = callStack2 \<rparr>))"

definition initState :: rstate where
  "initState = \<lparr> cells = Map.empty, nodes = [], stack = [], callStack = Map.empty \<rparr>"

definition runEvents :: "treeNodeData list \<Rightarrow> rstate" where
  "runEvents events = foldl processEvent initState (enumerate 0 events)"

text \<open>
  The value of \<open>return nodes\<close>: the forest that the root addresses denote in the final
  heap. Reading a heap follows \<open>cchildren\<close> addresses, so it takes fuel; a forest of \<open>n\<close>
  nodes is no deeper than \<open>n\<close>. \<open>None\<close> would be a heap that is not a finite forest.
\<close>

fun readNode :: "nat \<Rightarrow> heap \<Rightarrow> nat \<Rightarrow> treeNodeDisplay option" where
  "readNode 0 h a = None"
| "readNode (Suc fuel) h a =
     (case h a of
        None \<Rightarrow> None
      | Some c \<Rightarrow>
          (case those (map (readNode fuel h) (cchildren c)) of
             None \<Rightarrow> None
           | Some ts \<Rightarrow> Some (TreeNode (cinfo c) ts)))"

definition readForest :: "nat \<Rightarrow> heap \<Rightarrow> nat list \<Rightarrow> treeNodeDisplay list option" where
  "readForest fuel h roots = those (map (readNode fuel h) roots)"

definition transformTreeData :: "treeNodeData list \<Rightarrow> treeNodeDisplay list option" where
  "transformTreeData events =
     (let s = runEvents events in readForest (Suc (length events)) (cells s) (nodes s))"

text \<open>\<open>flattenTree\<close> and its inner \<open>traverse\<close>.\<close>

fun flattenTree_node :: "treeNodeDisplay \<Rightarrow> treeNodeDisplay list"
  and flattenTree_traverse :: "treeNodeDisplay list \<Rightarrow> treeNodeDisplay list" where
  "flattenTree_node (TreeNode i cs) =
     TreeNode i cs # (if isExpanded i \<and> length cs > 0 then flattenTree_traverse cs else [])"
| "flattenTree_traverse [] = []"
| "flattenTree_traverse (node # nodeList) = flattenTree_node node @ flattenTree_traverse nodeList"

definition flattenTree :: "treeNodeDisplay list \<Rightarrow> treeNodeDisplay list" where
  "flattenTree ns = flattenTree_traverse ns"

section \<open>The visibility projection (\<open>visibleNodes\<close> in \<open>components/TreeView.tsx\<close>)\<close>








subsection \<open>The projection as the specification words it\<close>




section \<open>Performance analysis (\<open>components/PerformanceAnalysis.tsx\<close>)\<close>

text \<open>
  \<open>min_time\<close> starts at \<open>Infinity\<close>, the one place where the program holds a number that
  is not finite.
\<close>

datatype enumber = Finite number | Infinity

record methodStats =
  ms_method_name :: string
  class_name :: "string option"
  total_time :: number
  call_count :: nat
  average_time :: number
  max_time :: number
  min_time :: enumber
  node_ids :: "string list"

text \<open>\<open>Math.min(stats.min_time, d)\<close> for a finite \<open>d\<close>.\<close>

fun math_min :: "enumber \<Rightarrow> number \<Rightarrow> enumber" where
  "math_min Infinity d = Finite d"
| "math_min (Finite m) d = Finite (min m d)"

text \<open>
  The object \<open>methodStats\<close> is a dictionary whose keys all contain \<open>#\<close>, so
  \<open>Object.values\<close> enumerates it in the order of first insertion: an association list in
  which a new key goes to the end and an old key keeps its place.
\<close>

fun dictSet :: "string \<Rightarrow> 'v \<Rightarrow> (string \<times> 'v) list \<Rightarrow> (string \<times> 'v) list" where
  "dictSet k v [] = [(k, v)]"
| "dictSet k v ((k', v') # kvs) = (if k' = k then (k, v) # kvs else (k', v') # dictSet k v kvs)"

text \<open>\<open>collectNodes\<close>: every node of the forest, in pre-order.\<close>

fun collectNode :: "treeNodeDisplay \<Rightarrow> treeNodeDisplay list"
  and collectNodes :: "treeNodeDisplay list \<Rightarrow> treeNodeDisplay list" where
  "collectNode (TreeNode i cs) = TreeNode i cs # collectNodes cs"
| "collectNodes [] = []"
| "collectNodes (node # ns) = collectNode node @ collectNodes ns"

text \<open>\<open>`${node.defined_class || 'Unknown'}#${node.method_name}`\<close>; the empty string is falsy.\<close>

definition orUnknown :: "string option \<Rightarrow> string" where
  "orUnknown c = (case c of None \<Rightarrow> ''Unknown'' | Some s \<Rightarrow> if s = [] then ''Unknown'' else s)"

definition statsKey :: "nodeInfo \<Rightarrow> string" where
  "statsKey node = orUnknown (defined_class node) @ ''#'' @ method_name node"

text \<open>\<open>n.duration && n.duration > 0\<close>: the duration is present and positive.\<close>

definition qualifies :: "nodeInfo \<Rightarrow> bool" where
  "qualifies node = (case duration node of None \<Rightarrow> False | Some d \<Rightarrow> d \<noteq> 0 \<and> 0 < d)"

definition emptyStats :: "nodeInfo \<Rightarrow> methodStats" where
  "emptyStats node =
     \<lparr> ms_method_name = method_name node, class_name = defined_class node, total_time = 0,
       call_count = 0, average_time = 0, max_time = 0, min_time = Infinity, node_ids = [] \<rparr>"

text \<open>The body of the first \<open>allNodes.forEach\<close>.\<close>

definition analyzeNode :: "(string \<times> methodStats) list \<Rightarrow> treeNodeDisplay
    \<Rightarrow> (string \<times> methodStats) list" where
  "analyzeNode stats n =
     (let node = info n in
      case duration node of
        None \<Rightarrow> stats
      | Some d \<Rightarrow>
          if d = 0 \<or> d \<le> 0 then stats
          else
            (let key = statsKey node;
                 st = (case map_of stats key of None \<Rightarrow> emptyStats node | Some s \<Rightarrow> s)
             in dictSet key
                  (st \<lparr> total_time := js_add (total_time st) d,
                       call_count := call_count st + 1,
                       max_time := max (max_time st) d,
                       min_time := math_min (min_time st) d,
                       node_ids := node_ids st @ [node_id node] \<rparr>)
                  stats))"

text \<open>The second loop: the averages, and \<open>min_time\<close> of a group that saw no call.\<close>

definition finishStats :: "methodStats \<Rightarrow> methodStats" where
  "finishStats st =
     st \<lparr> average_time := js_div (total_time st) (of_nat (call_count st)),
          min_time := (if min_time st = Infinity then Finite 0 else min_time st) \<rparr>"

definition methodStatsOf :: "treeNodeDisplay list \<Rightarrow> (string \<times> methodStats) list" where
  "methodStatsOf allNodes = map (\<lambda>(k, st). (k, finishStats st)) (foldl analyzeNode [] allNodes)"

text \<open>
  \<open>Array.prototype.sort\<close> with a comparator is a stable sort: \<open>x\<close> stays before the
  elements it does not compare greater than. The comparators of this program are
  differences of two doubles, whose sign is the sign of the exact difference.
\<close>

fun insertBy :: "('a \<Rightarrow> 'a \<Rightarrow> number) \<Rightarrow> 'a \<Rightarrow> 'a list \<Rightarrow> 'a list" where
  "insertBy cmp x [] = [x]"
| "insertBy cmp x (y # ys) = (if cmp x y \<le> 0 then x # y # ys else y # insertBy cmp x ys)"

definition sortBy :: "('a \<Rightarrow> 'a \<Rightarrow> number) \<Rightarrow> 'a list \<Rightarrow> 'a list" where
  "sortBy cmp xs = foldr (insertBy cmp) xs []"

definition js_sub :: "number \<Rightarrow> number \<Rightarrow> number" where
  "js_sub x y = js_round (x - y)"

definition orZero :: "number option \<Rightarrow> number" where
  "orZero d = (case d of None \<Rightarrow> 0 | Some x \<Rightarrow> x)"

record analysis =
  byTotalTime :: "methodStats list"
  byAverageTime :: "methodStats list"
  byCallCount :: "methodStats list"
  slowCalls :: "treeNodeDisplay list"
  totalTime :: number
  totalCalls :: nat

text \<open>\<open>Object.values(methodStats).sort((a, b) => b.total_time - a.total_time)\<close>, before \<open>slice\<close>.\<close>

definition rankedByTotalTime :: "treeNodeDisplay list \<Rightarrow> methodStats list" where
  "rankedByTotalTime allNodes =
     sortBy (\<lambda>a b. js_sub (total_time b) (total_time a)) (map snd (methodStatsOf allNodes))"

definition PerformanceAnalysis :: "treeNodeDisplay list \<Rightarrow> analysis" where
  "PerformanceAnalysis data =
     (let allNodes = collectNodes data;
          stats = map snd (methodStatsOf allNodes)
      in \<lparr> byTotalTime = take 10 (rankedByTotalTime allNodes),
           byAverageTime = take 10 (sortBy (\<lambda>a b. js_sub (average_time b) (average_time a))
                              (filter (\<lambda>s. call_count s \<ge> 1) stats)),
           byCallCount = take 10 (sortBy (\<lambda>a b. js_sub (of_nat (call_count b)) (of_nat (call_count a)))
                              stats),
           slowCalls = take 15 (sortBy (\<lambda>a b. js_sub (orZero (duration (info b))) (orZero (duration (info a))))
                              (filter (\<lambda>n. qualifies (info n)) allNodes)),
           totalTime = foldl (\<lambda>sum n. js_add sum (orZero (duration (info n)))) 0 allNodes,
           totalCalls = length allNodes \<rparr>)"

subsection \<open>The groups as the specification words them\<close>

text \<open>
  The durations of a group, in pre-order: those of the nodes with a present, positive
  duration whose key is \<open>key\<close>. The key of a method stat is rebuilt from the class and
  method name it records.
\<close>

definition groupDurations :: "string \<Rightarrow> treeNodeDisplay list \<Rightarrow> number list" where
  "groupDurations key allNodes =
     map (\<lambda>n. orZero (duration (info n)))
       (filter (\<lambda>n. qualifies (info n) \<and> statsKey (info n) = key) allNodes)"

definition groupKey :: "methodStats \<Rightarrow> string" where
  "groupKey st = orUnknown (class_name st) @ ''#'' @ ms_method_name st"

text \<open>The sum of a list of doubles, accumulated from 0 in the order of the list.\<close>

definition js_sum :: "number list \<Rightarrow> number" where
  "js_sum ds = foldl js_add 0 ds"

subsection \<open>The invariant of the grouping loop\<close>

text \<open>What one group's record holds after the nodes \<open>ns\<close>.\<close>

definition group_ok :: "treeNodeDisplay list \<Rightarrow> string \<Rightarrow> methodStats \<Rightarrow> bool" where
  "group_ok ns k s =
     (groupDurations k ns \<noteq> [] \<and> groupKey s = k
      \<and> total_time s = js_sum (groupDurations k ns)
      \<and> call_count s = length (groupDurations k ns)
      \<and> max_time s = Max (set (groupDurations k ns))
      \<and> min_time s = Finite (Min (set (groupDurations k ns))))"

definition stats_ok :: "treeNodeDisplay list \<Rightarrow> (string \<times> methodStats) list \<Rightarrow> bool" where
  "stats_ok ns stats =
     (distinct (map fst stats)
      \<and> (\<forall>k. case map_of stats k of
                None \<Rightarrow> groupDurations k ns = []
              | Some s \<Rightarrow> group_ok ns k s))"


section \<open>An applicative account of the reconstruction\<close>

text \<open>
  The proofs read the heap of \<open>transformTreeData\<close> through a second, pointer-free
  description of the same loop. A frame is an open node: its address, its fields and
  the children that are already finished. The frames, top first, are the stack; a node
  that is popped is finished and joins the children of the frame below, or the
  finished roots.
\<close>

type_synonym frame = "nat \<times> nodeInfo \<times> treeNodeDisplay list"

text \<open>The forest that the frames denote, given what hangs below the top frame.\<close>

fun openTree :: "treeNodeDisplay list \<Rightarrow> frame list \<Rightarrow> treeNodeDisplay list" where
  "openTree extra [] = extra"
| "openTree extra ((a, i, cs) # fs) = openTree [TreeNode i (cs @ extra)] fs"

record zstate =
  zdone :: "treeNodeDisplay list"
  zframes :: "frame list"
  zcalls :: "string \<Rightarrow> nat option"

definition zforest :: "zstate \<Rightarrow> treeNodeDisplay list" where
  "zforest z = zdone z @ openTree [] (zframes z)"

function zpopLoop :: "nat \<Rightarrow> treeNodeDisplay list \<Rightarrow> frame list \<Rightarrow> (string \<Rightarrow> nat option)
    \<Rightarrow> treeNodeDisplay list \<times> frame list \<times> (string \<Rightarrow> nat option)" where
  "zpopLoop lvl dn [] cs = (dn, [], cs)"
| "zpopLoop lvl dn [(a, i, ts)] cs =
     (if level i \<ge> lvl
      then zpopLoop lvl (dn @ [TreeNode i ts]) [] (cs (callKey (depth i) (method_name i) := None))
      else (dn, [(a, i, ts)], cs))"
| "zpopLoop lvl dn ((a, i, ts) # (b, j, us) # fs) cs =
     (if level i \<ge> lvl
      then zpopLoop lvl dn ((b, j, us @ [TreeNode i ts]) # fs)
             (cs (callKey (depth i) (method_name i) := None))
      else (dn, (a, i, ts) # (b, j, us) # fs, cs))"
  by pat_completeness auto
termination
  by (relation "measure (\<lambda>(lvl, dn, fs, cs). length fs)") auto

definition mergeInfo :: "treeNodeData \<Rightarrow> nodeInfo \<Rightarrow> nodeInfo" where
  "mergeInfo ev i =
     i \<lparr> return_value := return_value ev, end_time := end_time ev, duration := duration ev \<rparr>"

definition zstep :: "zstate \<Rightarrow> nat \<times> treeNodeData \<Rightarrow> zstate" where
  "zstep z ie =
     (case ie of (index, ev) \<Rightarrow>
      if event ev = Return then
        (let key = callKey (depth ev) (method_name ev) in
         case zcalls z key of
           None \<Rightarrow> z
         | Some a \<Rightarrow>
             z \<lparr> zframes := map (\<lambda>(b, i, ts). if b = a then (b, mergeInfo ev i, ts) else (b, i, ts))
                              (zframes z),
                 zcalls := (zcalls z) (key := None) \<rparr>)
      else
        (let node = newNodeInfo index ev;
             (dn, fs, cs) = zpopLoop (level node) (zdone z) (zframes z) (zcalls z);
             cs2 = (if event ev = Call
                    then cs (callKey (depth ev) (method_name ev) \<mapsto> index)
                    else cs)
         in \<lparr> zdone = dn, zframes = (index, node, []) # fs, zcalls = cs2 \<rparr>))"

definition zinit :: zstate where
  "zinit = \<lparr> zdone = [], zframes = [], zcalls = Map.empty \<rparr>"

definition zrun :: "treeNodeData list \<Rightarrow> zstate" where
  "zrun events = foldl zstep zinit (enumerate 0 events)"

text \<open>
  Address \<open>a\<close> of heap \<open>h\<close> denotes the tree \<open>t\<close>, and every node of it lies in the set \<open>A\<close>
  of addresses.
\<close>

inductive repr :: "heap \<Rightarrow> nat set \<Rightarrow> nat \<Rightarrow> treeNodeDisplay \<Rightarrow> bool" for h :: heap and A :: "nat set" where
  reprI: "a \<in> A \<Longrightarrow> h a = Some c \<Longrightarrow> cinfo c = i \<Longrightarrow> list_all2 (repr h A) (cchildren c) ts
    \<Longrightarrow> repr h A a (TreeNode i ts)"

text \<open>
  The frames against the heap: the cell of a frame holds the frame's fields, and its
  children are the finished ones followed by the frame above, if there is one.
\<close>

fun framesOk :: "heap \<Rightarrow> nat set \<Rightarrow> nat option \<Rightarrow> frame list \<Rightarrow> bool" where
  "framesOk h A ab [] = True"
| "framesOk h A ab ((a, i, ts) # fs) =
     ((\<exists>c kids. h a = Some c \<and> cinfo c = i
         \<and> cchildren c = kids @ (case ab of None \<Rightarrow> [] | Some b \<Rightarrow> [b])
         \<and> list_all2 (repr h A) kids ts)
      \<and> framesOk h A (Some a) fs)"

text \<open>The finished addresses: allocated and not on the stack.\<close>

definition finished :: "nat \<Rightarrow> nat list \<Rightarrow> nat set" where
  "finished n st = {x. x < n \<and> x \<notin> set st}"

definition rootsOk :: "heap \<Rightarrow> nat set \<Rightarrow> nat list \<Rightarrow> treeNodeDisplay list \<Rightarrow> frame list \<Rightarrow> bool" where
  "rootsOk h A roots dn fs =
     (\<exists>rs. roots = rs @ (case fs of [] \<Rightarrow> [] | _ # _ \<Rightarrow> [fst (last fs)])
        \<and> list_all2 (repr h A) rs dn)"

text \<open>
  What of the loop's variables the frames must agree with: the stack is the frames'
  addresses, all allocated and distinct, and a pending call is on the stack under its
  own key.
\<close>

definition stackOk :: "nat \<Rightarrow> nat list \<Rightarrow> (string \<Rightarrow> nat option) \<Rightarrow> frame list \<Rightarrow> bool" where
  "stackOk n st cs fs =
     (st = map fst fs \<and> distinct st \<and> (\<forall>a \<in> set st. a < n)
      \<and> (\<forall>k a. cs k = Some a \<longrightarrow>
            (\<exists>i ts. (a, i, ts) \<in> set fs \<and> k = callKey (depth i) (method_name i))))"

definition sim :: "nat \<Rightarrow> rstate \<Rightarrow> zstate \<Rightarrow> bool" where
  "sim n s z =
     (stackOk n (stack s) (callStack s) (zframes z)
      \<and> callStack s = zcalls z
      \<and> framesOk (cells s) (finished n (stack s)) None (zframes z)
      \<and> rootsOk (cells s) (finished n (stack s)) (nodes s) (zdone z) (zframes z))"

subsection \<open>What a return never changes\<close>

text \<open>
  The fields of a node that no \<open>return\<close> event writes: id, method name, depth, level and
  \<open>isExpanded\<close>; the cores of a forest in pre-order; and the cores that the events which
  create a node (\<open>call\<close> and \<open>call_return\<close>) give, numbered from \<open>n\<close>.
\<close>

type_synonym core = "string \<times> string \<times> nat \<times> nat \<times> bool"

definition core :: "nodeInfo \<Rightarrow> core" where
  "core i = (node_id i, method_name i, depth i, level i, isExpanded i)"

definition cores :: "treeNodeDisplay list \<Rightarrow> core list" where
  "cores forest = map (\<lambda>t. core (info t)) (collectNodes forest)"

definition eventCores :: "nat \<Rightarrow> treeNodeData list \<Rightarrow> core list" where
  "eventCores n evs =
     map (\<lambda>(k, ev). (''node-'' @ decimal k, method_name ev, depth ev, depth ev, True))
       (filter (\<lambda>(k, ev). event ev \<noteq> Return) (enumerate n evs))"

section \<open>Notions for the properties of the reconstruction\<close>

text \<open>
  A sequence of perfectly nested, matched call/return pairs: only \<open>call\<close> and \<open>return\<close>
  events, and every \<open>return\<close> closes the innermost open call, whose call key (depth and
  method name) it carries; no call stays open at the end. \<open>opened\<close> lists the keys of the
  open calls, innermost first.
\<close>

fun nested :: "(nat \<times> string) list \<Rightarrow> treeNodeData list \<Rightarrow> bool" where
  "nested opened [] = (opened = [])"
| "nested opened (e # es) =
     (case event e of
        Call \<Rightarrow> nested ((depth e, method_name e) # opened) es
      | Return \<Rightarrow>
          (case opened of
             [] \<Rightarrow> False
           | k # rest \<Rightarrow> k = (depth e, method_name e) \<and> nested rest es)
      | CallReturn \<Rightarrow> False)"

definition perfectly_nested :: "treeNodeData list \<Rightarrow> bool" where
  "perfectly_nested evs = nested [] evs"

text \<open>
  Every node that has a parent lies strictly deeper than the parent: \<open>kidsOk l d ts\<close> holds
  when the trees \<open>ts\<close>, as children of a node of level \<open>l\<close> and depth \<open>d\<close>, have a greater
  level and a greater depth, and the same holds inside them.
\<close>

fun nodeOk :: "treeNodeDisplay \<Rightarrow> bool"
  and kidsOk :: "nat \<Rightarrow> nat \<Rightarrow> treeNodeDisplay list \<Rightarrow> bool" where
  "nodeOk (TreeNode i ts) = kidsOk (level i) (depth i) ts"
| "kidsOk l d [] = True"
| "kidsOk l d (t # ts) = (l < level (info t) \<and> d < depth (info t) \<and> nodeOk t \<and> kidsOk l d ts)"

fun forestOk :: "treeNodeDisplay list \<Rightarrow> bool" where
  "forestOk [] = True"
| "forestOk (t # ts) = (nodeOk t \<and> forestOk ts)"

text \<open>The same for the open nodes: the levels grow from the bottom of the stack to its top.\<close>

fun framesLevels :: "frame list \<Rightarrow> bool" where
  "framesLevels [] = True"
| "framesLevels [(a, i, ts)] = (kidsOk (level i) (depth i) ts \<and> level i = depth i)"
| "framesLevels ((a, i, ts) # (b, j, us) # fs) =
     (kidsOk (level i) (depth i) ts \<and> level i = depth i \<and> level j < level i
      \<and> framesLevels ((b, j, us) # fs))"

text \<open>
  The shape of a forest: id, level and childlessness of every node in pre-order; and the
  shape that a list of created nodes (id and level, in the order of creation) gives when
  a node is childless exactly if the node created next is not deeper.
\<close>

type_synonym shape = "(string \<times> nat \<times> bool) list"

definition shape :: "treeNodeDisplay list \<Rightarrow> shape" where
  "shape forest = map (\<lambda>t. (node_id (info t), level (info t), children t = [])) (collectNodes forest)"

definition notDeeper :: "(string \<times> nat) list \<Rightarrow> nat \<Rightarrow> bool" where
  "notDeeper rest l = (case rest of [] \<Rightarrow> True | (j, m) # _ \<Rightarrow> m \<le> l)"

fun shapeSpec :: "(string \<times> nat) list \<Rightarrow> shape" where
  "shapeSpec [] = []"
| "shapeSpec ((i, l) # rest) = (i, l, notDeeper rest l) # shapeSpec rest"

definition created :: "nat \<Rightarrow> treeNodeData list \<Rightarrow> (string \<times> nat) list" where
  "created n evs = map (\<lambda>(i, m, d, l, x). (i, l)) (eventCores n evs)"

text \<open>The part of a shape that the open nodes below the top contribute.\<close>

fun spine :: "frame list \<Rightarrow> shape" where
  "spine [] = []"
| "spine ((a, i, ts) # fs) = spine fs @ (node_id i, level i, False) # shape ts"

definition topNonempty :: "frame list \<Rightarrow> bool" where
  "topNonempty fs = (case fs of [] \<Rightarrow> True | (a, i, ts) # _ \<Rightarrow> ts \<noteq> [])"

text \<open>
  The create-events that follow position \<open>i\<close>: the first of them, if any, is the next
  node.
\<close>

definition nextCreate :: "nat \<Rightarrow> treeNodeData list \<Rightarrow> treeNodeData option" where
  "nextCreate i evs = find (\<lambda>e. event e \<noteq> Return) (drop (Suc i) evs)"

text \<open>The nodes of a forest that carry the id of event \<open>i\<close>.\<close>

definition nodesOfEvent :: "nat \<Rightarrow> treeNodeDisplay list \<Rightarrow> treeNodeDisplay list" where
  "nodesOfEvent i forest =
     filter (\<lambda>t. node_id (info t) = ''node-'' @ decimal i) (collectNodes forest)"

text \<open>
  Event \<open>a\<close> is the most recent \<open>call\<close> event with call key \<open>k\<close>: it is a \<open>call\<close> with that
  key, and no \<open>call\<close> after it has the key.
\<close>

definition eventKey :: "treeNodeData \<Rightarrow> string" where
  "eventKey e = callKey (depth e) (method_name e)"

definition mostRecentCall :: "treeNodeData list \<Rightarrow> string \<Rightarrow> nat \<Rightarrow> bool" where
  "mostRecentCall evs k a =
     (a < length evs \<and> event (evs ! a) = Call \<and> eventKey (evs ! a) = k
      \<and> (\<forall>j \<in> {Suc a ..< length evs}. event (evs ! j) = Call \<longrightarrow> eventKey (evs ! j) \<noteq> k))"

text \<open>
  Between two events the top of the stack is the node created last, and it has no
  finished child yet.
\<close>

definition topLast :: "zstate \<Rightarrow> (string \<times> nat) list \<Rightarrow> bool" where
  "topLast z l =
     (case zframes z of
        [] \<Rightarrow> l = []
      | (a, i, ts) # _ \<Rightarrow> ts = [] \<and> l \<noteq> [] \<and> last l = (node_id i, level i))"

section \<open>Example data\<close>

text \<open>An event with a kind, a method name and a depth, and every optional field absent.\<close>

definition mkEvent :: "event_kind \<Rightarrow> string \<Rightarrow> nat \<Rightarrow> treeNodeData" where
  "mkEvent k m d =
     \<lparr> event = k, method_name = m, parameters = None, return_value = JNull, depth = d,
       defined_class = None, path = None, lineno = None, start_time = None,
       end_time = None, duration = None \<rparr>"

text \<open>A \<open>return\<close> event that carries a value and a duration.\<close>

definition mkReturn :: "string \<Rightarrow> nat \<Rightarrow> jvalue \<Rightarrow> number \<Rightarrow> treeNodeData" where
  "mkReturn m d v t = (mkEvent Return m d) \<lparr> return_value := v, duration := Some t \<rparr>"

text \<open>A node of class \<open>c\<close>, method \<open>m\<close> and duration \<open>t\<close>, with children \<open>cs\<close>.\<close>

definition mkNode :: "nat \<Rightarrow> string option \<Rightarrow> string \<Rightarrow> number option \<Rightarrow> treeNodeDisplay list
    \<Rightarrow> treeNodeDisplay" where
  "mkNode index c m t cs =
     TreeNode (newNodeInfo index ((mkEvent Call m 0) \<lparr> defined_class := c, duration := t \<rparr>)) cs"

text \<open>
  Three calls that last 0.1, 0.2 and 0.3 seconds (the doubles nearest to these), the
  first of method \<open>A#m\<close> and the other two of \<open>B#m\<close>.
\<close>

definition roundingForest :: "treeNodeDisplay list" where
  "roundingForest =
     [mkNode 0 (Some ''A'') ''m'' (Some (js_round (1 / 10)))
        [mkNode 1 (Some ''B'') ''m'' (Some (js_round (2 / 10))) []],
      mkNode 2 (Some ''B'') ''m'' (Some (js_round (3 / 10))) []]"

text \<open>
  The example trace of the specification: \<open>a\<close> calls \<open>b\<close>, \<open>b\<close> returns 5 and then \<open>a\<close>
  returns 5.
\<close>

definition nestedEvents :: "treeNodeData list" where
  "nestedEvents =
     [mkEvent Call ''a'' 0, mkEvent Call ''b'' 1, mkReturn ''b'' 1 (JNum 5) 1,
      mkReturn ''a'' 0 (JNum 5) 2]"

text \<open>
  Two calls of \<open>a\<close> at depth 0, neither returned when the second arrives, and one
  \<open>return\<close> of \<open>a\<close> at depth 0.
\<close>

definition sameKeyEvents :: "treeNodeData list" where
  "sameKeyEvents = [mkEvent Call ''a'' 0, mkEvent Call ''a'' 0, mkReturn ''a'' 0 (JNum 5) 2]"

text \<open>
  Three leaf calls: \<open>x\<close> at depth 0, then \<open>y\<close> at the strictly greater depth 1, then \<open>z\<close>
  at depth 0 again.
\<close>

definition deeperEvents :: "treeNodeData list" where
  "deeperEvents =
     [mkEvent CallReturn ''x'' 0, mkEvent CallReturn ''y'' 1, mkEvent CallReturn ''z'' 0]"

section \<open>Properties of the formatters\<close>

text \<open>
  C10. For an absent duration (\<open>null\<close>) \<open>formatDuration\<close> returns the empty string, which
  is neither the \<open>nil\<close> sentinel nor a rendering of zero, and for every present duration
  it returns a non-empty string; so the row of a call that never returned, whose
  duration is \<open>null\<close>, has no duration badge.
\<close>

theorem formatDuration_null:
  "formatDuration toFixed None = []
   \<and> formatDuration toFixed None \<noteq> ''nil''
   \<and> formatDuration toFixed None \<noteq> toFixed 0 3 @ ''s''
   \<and> (\<forall>x. formatDuration toFixed (Some x) \<noteq> [])
   \<and> durationBadge toFixed (node\<lparr>duration := None\<rparr>) = None"
  by (simp add: formatDuration_def durationBadge_def micro_sign_def)

text \<open>
  C7, as stated, fails: the array branch of \<open>formatValue\<close> never looks at \<open>maxLength\<close>.
  A two-element array renders as \<open>[nil, ... +1 more]\<close>, 18 characters, under a maximum
  of 10.
\<close>

theorem formatValue_bound_counterexample:
  "formatValue wholeToString (JArr [JNull, JNull]) 10 = ''[nil, ... +1 more]''
   \<and> \<not> int (length (formatValue wholeToString (JArr [JNull, JNull]) 10)) \<le> 10"
  by code_simp

text \<open>
  C7, amended. \<open>formatValue\<close> looks at \<open>maxLength\<close> in three branches only.
  A string whose JSON-quoted form is no longer than \<open>maxLength\<close> is returned whole, within
  the maximum; a longer one is cut to a prefix of its quoted form followed by the
  ellipsis marker \<open>..."\<close>. A single-entry object whose rendering is longer than
  \<open>maxLength\<close> is replaced by \<open>{k: ...}\<close>. The fallthrough value is cut to \<open>maxLength\<close>
  characters, ellipsis included, when \<open>maxLength\<close> is at least 3. \<open>nil\<close>, booleans,
  numbers, arrays and objects of two or more entries are rendered the same under every
  \<open>maxLength\<close>.
\<close>

theorem formatValue_truncation:
  "(int (length (json_stringify s)) \<le> m \<longrightarrow>
      formatValue f (JStr s) m = json_stringify s \<and> int (length (formatValue f (JStr s) m)) \<le> m)
   \<and> (m < int (length (json_stringify s)) \<longrightarrow>
      (\<exists>k. formatValue f (JStr s) m = take k (json_stringify s) @ ''...'' @ [dquote]))
   \<and> (m < int (length (''{'' @ k @ '': '' @ formatValue f v 20 @ ''}'')) \<longrightarrow>
      formatValue f (JObj [(k, v)]) m = ''{'' @ k @ '': ...}'')
   \<and> (3 \<le> m \<longrightarrow> int (length (formatValue f JUndefined m)) \<le> m)
   \<and> formatValue f JNull m = formatValue f JNull m'
   \<and> formatValue f (JBool b) m = formatValue f (JBool b) m'
   \<and> formatValue f (JNum x) m = formatValue f (JNum x) m'
   \<and> formatValue f (JArr vs) m = formatValue f (JArr vs) m'
   \<and> formatValue f (JObj (e1 # e2 # es)) m = formatValue f (JObj (e1 # e2 # es)) m'"
proof -
  have str_short: "int (length (json_stringify s)) \<le> m \<longrightarrow>
      formatValue f (JStr s) m = json_stringify s \<and> int (length (formatValue f (JStr s) m)) \<le> m"
    by (simp add: Let_def)
  have str_long: "m < int (length (json_stringify s)) \<longrightarrow>
      (\<exists>k. formatValue f (JStr s) m = take k (json_stringify s) @ ''...'' @ [dquote])"
    by (auto simp add: Let_def slice0_def)
  have obj1: "m < int (length (''{'' @ k @ '': '' @ formatValue f v 20 @ ''}'')) \<longrightarrow>
      formatValue f (JObj [(k, v)]) m = ''{'' @ k @ '': ...}''"
    by (simp add: Let_def)
  have undef: "3 \<le> m \<longrightarrow> int (length (formatValue f JUndefined m)) \<le> m"
    by (auto simp add: Let_def slice0_def)
  have arr: "formatValue f (JArr vs) m = formatValue f (JArr vs) m'"
  proof (cases vs)
    case Nil
    then show ?thesis by simp
  next
    case (Cons a as)
    then show ?thesis by (cases as) simp_all
  qed
  have objs: "formatValue f (JObj (e1 # e2 # es)) m = formatValue f (JObj (e1 # e2 # es)) m'"
    by (cases e1) simp
  show ?thesis
    using str_short str_long obj1 undef arr objs by simp
qed

theorem formatValue_truncation_witness:
  "formatValue wholeToString (JStr ''ab'') 4 = json_stringify ''ab''
   \<and> int (length (formatValue wholeToString (JStr ''ab'') 4)) \<le> 4
   \<and> (\<exists>k. formatValue wholeToString (JStr ''abcdef'') 5
          = take k (json_stringify ''abcdef'') @ ''...'' @ [dquote])
   \<and> formatValue wholeToString (JObj [(''key'', JStr ''abcdef'')]) 5 = ''{key: ...}''
   \<and> int (length (formatValue wholeToString JUndefined 5)) \<le> 5"
proof -
  have h1: "int (length (json_stringify ''ab'')) \<le> 4"
    by (simp add: json_stringify_def json_escape_def dquote_def backslash_def)
  have h2: "5 < int (length (json_stringify ''abcdef''))"
    by (simp add: json_stringify_def json_escape_def dquote_def backslash_def)
  have h3: "5 < int (length (''{'' @ ''key'' @ '': '' @ formatValue wholeToString (JStr ''abcdef'') 20 @ ''}''))"
    by (simp add: json_stringify_def json_escape_def dquote_def backslash_def)
  have h4: "(3 :: int) \<le> 5"
    by simp
  from formatValue_truncation [of "''ab''" 4 wholeToString] h1
  have a: "formatValue wholeToString (JStr ''ab'') 4 = json_stringify ''ab''
      \<and> int (length (formatValue wholeToString (JStr ''ab'') 4)) \<le> 4"
    by blast
  from formatValue_truncation [of "''abcdef''" 5 wholeToString "''key''" "JStr ''abcdef''"] h2 h3 h4
  have b: "(\<exists>k. formatValue wholeToString (JStr ''abcdef'') 5
          = take k (json_stringify ''abcdef'') @ ''...'' @ [dquote])
      \<and> formatValue wholeToString (JObj [(''key'', JStr ''abcdef'')]) 5 = ''{key: ...}''
      \<and> int (length (formatValue wholeToString JUndefined 5)) \<le> 5"
    by (simp del: formatValue.simps)
  from a b show ?thesis by blast
qed

section \<open>The visibility projection refines its specification\<close>









section \<open>The method statistics\<close>

lemma map_of_dictSet: "map_of (dictSet k v kvs) = (map_of kvs) (k \<mapsto> v)"
  by (induction kvs) (auto simp add: fun_eq_iff)

lemma fst_dictSet: "set (map fst (dictSet k v kvs)) = insert k (set (map fst kvs))"
proof (induction kvs)
  case Nil
  then show ?case by simp
next
  case (Cons p kvs)
  obtain k' v' where p: "p = (k', v')" by (cases p)
  show ?case
  proof (cases "k' = k")
    case True
    then show ?thesis by (simp add: p)
  next
    case False
    then have "set (map fst (dictSet k v (p # kvs))) = insert k' (set (map fst (dictSet k v kvs)))"
      by (simp add: p)
    also have "\<dots> = insert k' (insert k (set (map fst kvs)))"
      by (simp only: Cons.IH)
    finally show ?thesis by (simp add: p insert_commute)
  qed
qed

lemma distinct_dictSet: "distinct (map fst kvs) \<Longrightarrow> distinct (map fst (dictSet k v kvs))"
proof (induction kvs)
  case Nil
  then show ?case by simp
next
  case (Cons p kvs)
  obtain k' v' where p: "p = (k', v')" by (cases p)
  from Cons.prems have a: "k' \<notin> set (map fst kvs)" "distinct (map fst kvs)"
    by (simp_all add: p)
  show ?case
  proof (cases "k' = k")
    case True
    with a show ?thesis by (simp add: p)
  next
    case False
    have "k' \<notin> set (map fst (dictSet k v kvs))"
      unfolding fst_dictSet using a False by simp
    with Cons.IH [OF a(2)] False show ?thesis by (simp add: p)
  qed
qed

lemma groupDurations_snoc:
  "groupDurations k (ns @ [n]) =
     (if qualifies (info n) \<and> statsKey (info n) = k
      then groupDurations k ns @ [orZero (duration (info n))] else groupDurations k ns)"
  by (simp add: groupDurations_def)

lemma group_ok_new:
  assumes "groupDurations k ns = []" and "duration i = Some d" and "0 < d"
    and "statsKey i = k" and "info n = i"
  shows "group_ok (ns @ [n]) k
     ((emptyStats i) \<lparr> total_time := js_add (total_time (emptyStats i)) d,
        call_count := call_count (emptyStats i) + 1,
        max_time := max (max_time (emptyStats i)) d,
        min_time := math_min (min_time (emptyStats i)) d,
        node_ids := node_ids (emptyStats i) @ [node_id i] \<rparr>)"
  using assms
  by (simp add: group_ok_def groupDurations_snoc qualifies_def orZero_def emptyStats_def
      js_sum_def groupKey_def statsKey_def)

lemma group_ok_old:
  assumes "group_ok ns k s" and "duration i = Some d" and "0 < d"
    and "statsKey i = k" and "info n = i"
  shows "group_ok (ns @ [n]) k
     (s \<lparr> total_time := js_add (total_time s) d,
        call_count := call_count s + 1,
        max_time := max (max_time s) d,
        min_time := math_min (min_time s) d,
        node_ids := node_ids s @ [node_id i] \<rparr>)"
proof -
  let ?ds = "groupDurations k ns"
  from assms have ds: "?ds \<noteq> []" by (simp add: group_ok_def)
  have snoc: "groupDurations k (ns @ [n]) = ?ds @ [d]"
    using assms by (simp add: groupDurations_snoc qualifies_def orZero_def)
  have mx: "Max (set (?ds @ [d])) = max (Max (set ?ds)) d"
    using ds by (simp add: max.commute)
  have mn: "Min (set (?ds @ [d])) = min (Min (set ?ds)) d"
    using ds by (simp add: min.commute)
  show ?thesis
    using assms(1) ds unfolding group_ok_def snoc mx mn
    by (simp add: js_sum_def groupKey_def)
qed

lemma group_ok_other:
  assumes "group_ok ns k s" and "\<not> (qualifies (info n) \<and> statsKey (info n) = k)"
  shows "group_ok (ns @ [n]) k s"
  using assms by (simp add: group_ok_def groupDurations_snoc)

lemma stats_ok_step:
  assumes "stats_ok ns stats"
  shows "stats_ok (ns @ [n]) (analyzeNode stats n)"
proof (cases "qualifies (info n)")
  case False
  then have same: "analyzeNode stats n = stats"
    by (auto simp add: analyzeNode_def qualifies_def Let_def split: option.splits)
  from False have eq: "\<And>k. groupDurations k (ns @ [n]) = groupDurations k ns"
    by (simp add: groupDurations_snoc)
  from assms show ?thesis
    unfolding same stats_ok_def group_ok_def by (simp add: eq cong: option.case_cong)
next
  case True
  then obtain d where d: "duration (info n) = Some d" "0 < d"
    by (auto simp add: qualifies_def split: option.splits)
  let ?i = "info n"
  let ?key = "statsKey ?i"
  let ?st = "case map_of stats ?key of None \<Rightarrow> emptyStats ?i | Some s \<Rightarrow> s"
  let ?st' = "?st \<lparr> total_time := js_add (total_time ?st) d,
        call_count := call_count ?st + 1,
        max_time := max (max_time ?st) d,
        min_time := math_min (min_time ?st) d,
        node_ids := node_ids ?st @ [node_id ?i] \<rparr>"
  have step: "analyzeNode stats n = dictSet ?key ?st' stats"
    using d by (simp add: analyzeNode_def Let_def)
  have key_ok: "group_ok (ns @ [n]) ?key ?st'"
  proof (cases "map_of stats ?key")
    case None
    with assms have "groupDurations ?key ns = []"
      unfolding stats_ok_def by (metis option.simps(4))
    from group_ok_new [OF this d refl refl] None show ?thesis by simp
  next
    case (Some s)
    with assms have "group_ok ns ?key s"
      unfolding stats_ok_def by (metis option.simps(5))
    from group_ok_old [OF this d refl refl] Some show ?thesis by simp
  qed
  have others: "case map_of stats k of
                None \<Rightarrow> groupDurations k (ns @ [n]) = []
              | Some s \<Rightarrow> group_ok (ns @ [n]) k s" if "k \<noteq> ?key" for k
  proof (cases "map_of stats k")
    case None
    with assms have "groupDurations k ns = []"
      unfolding stats_ok_def by (metis option.simps(4))
    with None that show ?thesis by (simp add: groupDurations_snoc)
  next
    case (Some s)
    with assms have "group_ok ns k s"
      unfolding stats_ok_def by (metis option.simps(5))
    from group_ok_other [OF this, of n] that Some show ?thesis by auto
  qed
  from assms have "distinct (map fst stats)" by (simp add: stats_ok_def)
  then have dist: "distinct (map fst (dictSet ?key ?st' stats))"
    by (rule distinct_dictSet)
  show ?thesis
    unfolding stats_ok_def step
  proof (intro conjI allI)
    show "distinct (map fst (dictSet ?key ?st' stats))" by (rule dist)
  next
    fix k
    show "case map_of (dictSet ?key ?st' stats) k of
            None \<Rightarrow> groupDurations k (ns @ [n]) = []
          | Some s \<Rightarrow> group_ok (ns @ [n]) k s"
    proof (cases "k = ?key")
      case True
      with key_ok show ?thesis by (simp add: map_of_dictSet)
    next
      case False
      with others [OF False] show ?thesis by (simp add: map_of_dictSet)
    qed
  qed
qed

lemma stats_ok_foldl: "stats_ok ns (foldl analyzeNode [] ns)"
proof (induction ns rule: rev_induct)
  case Nil
  then show ?case by (simp add: stats_ok_def groupDurations_def)
next
  case (snoc n ns)
  then show ?case by (simp add: stats_ok_step)
qed

lemma set_insertBy: "set (insertBy cmp x ys) = insert x (set ys)"
  by (induction ys) auto

lemma set_sortBy: "set (sortBy cmp xs) = set xs"
  by (induction xs) (simp_all add: sortBy_def set_insertBy)

lemma methodStatsOf_group:
  assumes "s \<in> set (map snd (methodStatsOf ns))"
  shows "\<exists>s0. s = finishStats s0 \<and> group_ok ns (groupKey s0) s0"
proof -
  let ?stats = "foldl analyzeNode [] ns"
  from assms obtain k s0 where ks: "(k, s0) \<in> set ?stats" "s = finishStats s0"
    by (auto simp add: methodStatsOf_def)
  have ok: "stats_ok ns ?stats" by (rule stats_ok_foldl)
  then have "distinct (map fst ?stats)" by (simp add: stats_ok_def)
  with ks(1) have "map_of ?stats k = Some s0" by simp
  with ok have g: "group_ok ns k s0"
    unfolding stats_ok_def by (metis option.simps(5))
  then have "groupKey s0 = k" by (simp add: group_ok_def)
  with g ks(2) show ?thesis by blast
qed

lemma ranked_subset:
  "set (byTotalTime (PerformanceAnalysis forest)) \<union> set (byAverageTime (PerformanceAnalysis forest))
     \<union> set (byCallCount (PerformanceAnalysis forest))
   \<subseteq> set (map snd (methodStatsOf (collectNodes forest)))"
proof -
  have "set (take n xs) \<subseteq> set xs" for n and xs :: "methodStats list"
    by (rule set_take_subset)
  then show ?thesis
    unfolding PerformanceAnalysis_def rankedByTotalTime_def Let_def
    by (auto simp add: set_sortBy dest!: in_set_takeD)
qed

text \<open>
  C5. Every method stat in the aggregator's output describes its group, the nodes with a
  present, positive duration that share the key class-or-\<open>Unknown\<close> \<open>#\<close> method name:
  \<open>total_time\<close> is the sum of the group's durations (accumulated in pre-order, as doubles),
  \<open>call_count\<close> their number, \<open>average_time\<close> the quotient of the two, \<open>max_time\<close> and
  \<open>min_time\<close> the greatest and the least of them. A method called three times with the
  durations 1, 2 and 3 gets total 6, count 3, average 2, maximum 3 and minimum 1.
\<close>

theorem method_stats_of_group:
  "(s \<in> set (byTotalTime (PerformanceAnalysis forest))
        \<union> set (byAverageTime (PerformanceAnalysis forest))
        \<union> set (byCallCount (PerformanceAnalysis forest)) \<longrightarrow>
      groupDurations (groupKey s) (collectNodes forest) \<noteq> []
      \<and> total_time s = js_sum (groupDurations (groupKey s) (collectNodes forest))
      \<and> call_count s = length (groupDurations (groupKey s) (collectNodes forest))
      \<and> average_time s = js_div (total_time s) (of_nat (call_count s))
      \<and> max_time s = Max (set (groupDurations (groupKey s) (collectNodes forest)))
      \<and> min_time s = Finite (Min (set (groupDurations (groupKey s) (collectNodes forest)))))
   \<and> byTotalTime (PerformanceAnalysis
        [mkNode 0 (Some ''A'') ''m'' (Some 1) [mkNode 1 (Some ''A'') ''m'' (Some 2) []],
         mkNode 2 (Some ''A'') ''m'' (Some 3) []])
      = [\<lparr> ms_method_name = ''m'', class_name = Some ''A'', total_time = 6, call_count = 3,
            average_time = 2, max_time = 3, min_time = Finite 1,
            node_ids = [''node-0'', ''node-1'', ''node-2''] \<rparr>]"
proof (intro conjI impI)
  assume "s \<in> set (byTotalTime (PerformanceAnalysis forest))
        \<union> set (byAverageTime (PerformanceAnalysis forest))
        \<union> set (byCallCount (PerformanceAnalysis forest))"
  with ranked_subset have "s \<in> set (map snd (methodStatsOf (collectNodes forest)))"
    by blast
  then obtain s0 where s0: "s = finishStats s0"
      "group_ok (collectNodes forest) (groupKey s0) s0"
    using methodStatsOf_group by blast
  have key: "groupKey s = groupKey s0"
    by (simp add: s0(1) finishStats_def groupKey_def)
  let ?ds = "groupDurations (groupKey s) (collectNodes forest)"
  have fields: "total_time s = total_time s0" "call_count s = call_count s0"
      "max_time s = max_time s0"
    by (simp_all add: s0(1) finishStats_def)
  from s0(2) have g: "?ds \<noteq> []" "total_time s0 = js_sum ?ds" "call_count s0 = length ?ds"
      "max_time s0 = Max (set ?ds)" "min_time s0 = Finite (Min (set ?ds))"
    unfolding key group_ok_def by blast+
  have "min_time s = (if min_time s0 = Infinity then Finite 0 else min_time s0)"
    by (simp add: s0(1) finishStats_def)
  with g(5) have mn: "min_time s = Finite (Min (set ?ds))"
    by (simp only: enumber.distinct if_False)
  show "?ds \<noteq> []" by (rule g(1))
  show "total_time s = js_sum ?ds" using g(2) fields(1) by simp
  show "call_count s = length ?ds" using g(3) fields(2) by simp
  show "average_time s = js_div (total_time s) (of_nat (call_count s))"
    by (simp add: s0(1) finishStats_def)
  show "max_time s = Max (set ?ds)" using g(4) fields(3) by simp
  show "min_time s = Finite (Min (set ?ds))" by (rule mn)
next
  show "byTotalTime (PerformanceAnalysis
        [mkNode 0 (Some ''A'') ''m'' (Some 1) [mkNode 1 (Some ''A'') ''m'' (Some 2) []],
         mkNode 2 (Some ''A'') ''m'' (Some 3) []])
      = [\<lparr> ms_method_name = ''m'', class_name = Some ''A'', total_time = 6, call_count = 3,
            average_time = 2, max_time = 3, min_time = Finite 1,
            node_ids = [''node-0'', ''node-1'', ''node-2''] \<rparr>]"
    by code_simp
qed

theorem method_stats_of_group_witness:
  "\<lparr> ms_method_name = ''m'', class_name = Some ''B'', total_time = 7, call_count = 2,
      average_time = 7 / 2, max_time = 4, min_time = Finite 3,
      node_ids = [''node-1'', ''node-2''] \<rparr>
     \<in> set (byCallCount (PerformanceAnalysis
        [mkNode 0 (Some ''A'') ''m'' (Some 5) [mkNode 1 (Some ''B'') ''m'' (Some 3) []],
         mkNode 2 (Some ''B'') ''m'' (Some 4) [], mkNode 3 (Some ''B'') ''m'' None []]))
   \<and> groupDurations ''B#m'' (collectNodes
        [mkNode 0 (Some ''A'') ''m'' (Some 5) [mkNode 1 (Some ''B'') ''m'' (Some 3) []],
         mkNode 2 (Some ''B'') ''m'' (Some 4) [], mkNode 3 (Some ''B'') ''m'' None []]) = [3, 4]
   \<and> js_sum [3, 4] = 7 \<and> js_div 7 (of_nat 2) = 7 / 2 \<and> Max (set [3, 4 :: rat]) = 4
   \<and> Min (set [3, 4 :: rat]) = 3"
proof -
  let ?s = "\<lparr> ms_method_name = ''m'', class_name = Some ''B'', total_time = 7, call_count = 2,
      average_time = 7 / 2, max_time = 4, min_time = Finite 3,
      node_ids = [''node-1'', ''node-2''] \<rparr>"
  let ?forest = "[mkNode 0 (Some ''A'') ''m'' (Some 5) [mkNode 1 (Some ''B'') ''m'' (Some 3) []],
         mkNode 2 (Some ''B'') ''m'' (Some 4) [], mkNode 3 (Some ''B'') ''m'' None []]"
  have mem: "?s \<in> set (byCallCount (PerformanceAnalysis ?forest))"
    by code_simp
  have key: "groupKey ?s = ''B#m''"
    by (simp add: groupKey_def orUnknown_def)
  have ds: "groupDurations ''B#m'' (collectNodes ?forest) = [3, 4]"
    by code_simp
  from method_stats_of_group [of ?s ?forest] mem
  have "total_time ?s = js_sum (groupDurations (groupKey ?s) (collectNodes ?forest))
      \<and> average_time ?s = js_div (total_time ?s) (of_nat (call_count ?s))
      \<and> max_time ?s = Max (set (groupDurations (groupKey ?s) (collectNodes ?forest)))
      \<and> min_time ?s = Finite (Min (set (groupDurations (groupKey ?s) (collectNodes ?forest))))"
    by blast
  then have "js_sum [3, 4] = 7 \<and> js_div 7 (of_nat 2) = 7 / 2 \<and> Max (set [3, 4 :: rat]) = 4
      \<and> Min (set [3, 4 :: rat]) = 3"
    unfolding key ds by simp
  with mem ds show ?thesis by blast
qed

section \<open>Additions that do not round\<close>

lemma round_half_even_of_int: "round_half_even (of_int z) = z"
  by (simp add: round_half_even_def)

lemma ilog2_of_nat_le:
  assumes "n < 2 ^ 53"
  shows "ilog2 (of_nat n) \<le> 52"
proof -
  have "bitlen (int n) \<le> 53"
    using assms less_power_nat_iff_bitlen [of n 53] by simp
  moreover have "bitlen 1 = 1"
    by (simp add: bitlen_alt_def)
  ultimately show ?thesis
    by (simp add: ilog2_def Rat.quotient_of_rat_of_nat Let_def)
qed

lemma js_round_of_nat:
  assumes "n < 2 ^ 53"
  shows "js_round (of_nat n) = of_nat n"
proof (cases "n = 0")
  case True
  then show ?thesis by (simp add: js_round_def)
next
  case False
  let ?x = "of_nat n :: rat"
  define e where "e = max (ilog2 \<bar>?x\<bar> - 52) (- 1074)"
  have "ilog2 \<bar>?x\<bar> \<le> 52"
    using ilog2_of_nat_le [OF assms] by simp
  then have e: "e \<le> 0" "- 1074 \<le> e"
    by (simp_all add: e_def)
  define k where "k = nat (- e)"
  have p: "pow2 e = 1 / 2 ^ k"
  proof (cases "e = 0")
    case True
    then show ?thesis by (simp add: pow2_def k_def)
  next
    case False
    with e show ?thesis by (simp add: pow2_def k_def)
  qed
  have scaled: "\<bar>?x\<bar> / pow2 e = of_int (int n * 2 ^ k)"
    by (simp add: p)
  have "js_round ?x = sgn ?x * of_int (round_half_even (\<bar>?x\<bar> / pow2 e)) * pow2 e"
    using False by (simp add: js_round_def Let_def e_def)
  also have "\<dots> = sgn ?x * of_int (int n * 2 ^ k) * pow2 e"
    by (simp only: scaled round_half_even_of_int)
  also have "\<dots> = of_int (int n * 2 ^ k) * (1 / 2 ^ k)"
    using False by (simp add: p)
  also have "\<dots> = ?x"
    by simp
  finally show ?thesis .
qed

lemma js_round_whole:
  assumes "x \<in> \<nat>" and "x < 2 ^ 53"
  shows "js_round x = x"
proof -
  from assms(1) obtain n where n: "x = of_nat n"
    by (auto elim: Nats_cases)
  with assms(2) have "(of_nat n :: rat) < of_nat (2 ^ 53)" by simp
  then have "n < 2 ^ 53" by (simp only: of_nat_less_iff)
  then show ?thesis unfolding n by (rule js_round_of_nat)
qed

lemma foldl_js_add_whole:
  assumes "a \<in> \<nat>" and "\<And>x. x \<in> set xs \<Longrightarrow> x \<in> \<nat>" and "a + sum_list xs < 2 ^ 53"
  shows "foldl js_add a xs = a + sum_list xs"
  using assms
proof (induction xs arbitrary: a)
  case Nil
  then show ?case by simp
next
  case (Cons x xs)
  have x: "x \<in> \<nat>" using Cons.prems(2) by simp
  have rest: "0 \<le> sum_list xs"
  proof (rule sum_list_nonneg)
    fix y assume "y \<in> set xs"
    then have "y \<in> \<nat>" using Cons.prems(2) by simp
    then show "0 \<le> y" by (auto elim: Nats_cases)
  qed
  have ax: "a + x \<in> \<nat>" using Cons.prems(1) x by (rule Nats_add)
  have "a + x < 2 ^ 53" using Cons.prems(3) rest by simp
  with ax have step: "js_add a x = a + x"
    by (simp add: js_add_def js_round_whole)
  have "foldl js_add (a + x) xs = (a + x) + sum_list xs"
  proof (rule Cons.IH [OF ax])
    show "\<And>y. y \<in> set xs \<Longrightarrow> y \<in> \<nat>" using Cons.prems(2) by simp
    show "a + x + sum_list xs < 2 ^ 53" using Cons.prems(3) by (simp add: add.assoc)
  qed
  then show ?case by (simp add: step add.assoc)
qed

lemma js_sum_whole:
  assumes "\<And>x. x \<in> set xs \<Longrightarrow> x \<in> \<nat>" and "sum_list xs < 2 ^ 53"
  shows "js_sum xs = sum_list xs"
  unfolding js_sum_def using foldl_js_add_whole [of 0 xs] assms by simp

lemma sum_list_whole:
  assumes "\<And>y. y \<in> set ys \<Longrightarrow> y \<in> \<nat>"
  shows "sum_list ys \<in> (\<nat> :: rat set)"
  using assms by (induction ys) (auto intro: Nats_add)

section \<open>The totals of the groups against the total time\<close>

lemma sum_list_insertBy: "sum_list (map f (insertBy cmp x ys)) = f x + sum_list (map f ys)"
  for f :: "'a \<Rightarrow> rat"
  by (induction ys) simp_all

lemma sum_list_sortBy: "sum_list (map f (sortBy cmp xs)) = sum_list (map f xs)"
  for f :: "'a \<Rightarrow> rat"
proof (induction xs)
  case Nil
  then show ?case by (simp add: sortBy_def)
next
  case (Cons x xs)
  have "sortBy cmp (x # xs) = insertBy cmp x (sortBy cmp xs)"
    by (simp add: sortBy_def)
  with Cons show ?case by (simp add: sum_list_insertBy)
qed

lemma groupDurations_Cons:
  "groupDurations k (n # ns) =
     (if qualifies (info n) \<and> statsKey (info n) = k then [orZero (duration (info n))] else [])
     @ groupDurations k ns"
  by (simp add: groupDurations_def)

lemma groups_partition:
  assumes "finite K" and "\<And>k. k \<notin> K \<Longrightarrow> groupDurations k ns = []"
  shows "(\<Sum>k\<in>K. sum_list (groupDurations k ns))
     = sum_list (map (\<lambda>n. orZero (duration (info n))) (filter (\<lambda>n. qualifies (info n)) ns))"
  using assms(2)
proof (induction ns)
  case Nil
  then show ?case by (simp add: groupDurations_def)
next
  case (Cons n ns)
  have tail: "\<And>k. k \<notin> K \<Longrightarrow> groupDurations k ns = []"
    using Cons.prems by (simp add: groupDurations_Cons)
  have IH: "(\<Sum>k\<in>K. sum_list (groupDurations k ns))
     = sum_list (map (\<lambda>n. orZero (duration (info n))) (filter (\<lambda>n. qualifies (info n)) ns))"
    by (rule Cons.IH [OF tail])
  let ?d = "orZero (duration (info n))"
  have split: "(\<Sum>k\<in>K. sum_list (groupDurations k (n # ns)))
      = (\<Sum>k\<in>K. if qualifies (info n) \<and> statsKey (info n) = k then ?d else 0)
        + (\<Sum>k\<in>K. sum_list (groupDurations k ns))"
  proof -
    have "sum_list (groupDurations k (n # ns))
        = (if qualifies (info n) \<and> statsKey (info n) = k then ?d else 0)
          + sum_list (groupDurations k ns)" for k
      by (simp add: groupDurations_Cons)
    then show ?thesis by (simp only: sum.distrib)
  qed
  show ?case
  proof (cases "qualifies (info n)")
    case False
    then show ?thesis by (simp add: split IH)
  next
    case True
    have "statsKey (info n) \<in> K"
    proof (rule ccontr)
      assume "statsKey (info n) \<notin> K"
      then have "groupDurations (statsKey (info n)) (n # ns) = []" by (rule Cons.prems)
      with True show False by (simp add: groupDurations_Cons)
    qed
    then have "(\<Sum>k\<in>K. if qualifies (info n) \<and> statsKey (info n) = k then ?d else 0) = ?d"
      using True assms(1) by (simp add: sum.delta)
    with True show ?thesis by (simp add: split IH)
  qed
qed

lemma sum_list_groupDurations_le:
  assumes "\<And>n. n \<in> set ns \<Longrightarrow> 0 \<le> orZero (duration (info n))"
  shows "sum_list (groupDurations k ns) \<le> sum_list (map (\<lambda>n. orZero (duration (info n))) ns)"
  using assms
proof (induction ns)
  case Nil
  then show ?case by (simp add: groupDurations_def)
next
  case (Cons n ns)
  have "0 \<le> orZero (duration (info n))" using Cons.prems by simp
  moreover have "sum_list (groupDurations k ns)
      \<le> sum_list (map (\<lambda>n. orZero (duration (info n))) ns)"
    using Cons.IH Cons.prems by simp
  ultimately show ?case by (simp add: groupDurations_Cons)
qed

lemma set_groupDurations:
  "set (groupDurations k ns) \<subseteq> (\<lambda>n. orZero (duration (info n))) ` set ns"
  by (auto simp add: groupDurations_def)

lemma totalTime_js_sum:
  "totalTime (PerformanceAnalysis forest)
     = js_sum (map (\<lambda>n. orZero (duration (info n))) (collectNodes forest))"
  by (simp add: PerformanceAnalysis_def Let_def js_sum_def foldl_map)
lemma group_totals_exact:
  assumes whole: "\<And>n. n \<in> set ns \<Longrightarrow> orZero (duration (info n)) \<in> \<nat>"
    and bound: "sum_list (map (\<lambda>n. orZero (duration (info n))) ns) < 2 ^ 53"
  shows "map total_time (map snd (methodStatsOf ns))
     = map (\<lambda>k. sum_list (groupDurations k ns)) (map fst (foldl analyzeNode [] ns))"
proof -
  let ?stats = "foldl analyzeNode [] ns"
  have ok: "stats_ok ns ?stats" by (rule stats_ok_foldl)
  then have dist: "distinct (map fst ?stats)" by (simp add: stats_ok_def)
  have nonneg: "0 \<le> orZero (duration (info n))" if "n \<in> set ns" for n
  proof -
    from whole [OF that] obtain m where "orZero (duration (info n)) = of_nat m"
      by (auto elim: Nats_cases)
    then show ?thesis by simp
  qed
  have one: "total_time (finishStats s) = sum_list (groupDurations k ns)"
    if "(k, s) \<in> set ?stats" for k s
  proof -
    from that dist have "map_of ?stats k = Some s" by simp
    with ok have "group_ok ns k s"
      unfolding stats_ok_def by (metis option.simps(5))
    then have t: "total_time s = js_sum (groupDurations k ns)"
      by (simp add: group_ok_def)
    have w: "\<And>x. x \<in> set (groupDurations k ns) \<Longrightarrow> x \<in> \<nat>"
      using set_groupDurations [of k ns] whole by auto
    have "sum_list (groupDurations k ns) < 2 ^ 53"
      using sum_list_groupDurations_le [of ns k, OF nonneg] bound by simp
    with w have "js_sum (groupDurations k ns) = sum_list (groupDurations k ns)"
      by (rule js_sum_whole)
    with t show ?thesis by (simp add: finishStats_def)
  qed
  have "map total_time (map snd (methodStatsOf ns))
      = map (\<lambda>p. total_time (finishStats (snd p))) ?stats"
    by (simp add: methodStatsOf_def case_prod_beta)
  also have "\<dots> = map (\<lambda>p. sum_list (groupDurations (fst p) ns)) ?stats"
  proof (rule map_cong [OF refl])
    fix p assume "p \<in> set ?stats"
    then have "(fst p, snd p) \<in> set ?stats" by simp
    then show "total_time (finishStats (snd p)) = sum_list (groupDurations (fst p) ns)"
      by (rule one)
  qed
  also have "\<dots> = map (\<lambda>k. sum_list (groupDurations k ns)) (map fst ?stats)"
    by simp
  finally show ?thesis .
qed

lemma group_totals_sum:
  assumes whole: "\<And>n. n \<in> set ns \<Longrightarrow> qualifies (info n) \<and> orZero (duration (info n)) \<in> \<nat>"
    and bound: "sum_list (map (\<lambda>n. orZero (duration (info n))) ns) < 2 ^ 53"
  shows "sum_list (map total_time (map snd (methodStatsOf ns)))
     = sum_list (map (\<lambda>n. orZero (duration (info n))) ns)"
proof -
  let ?stats = "foldl analyzeNode [] ns"
  let ?K = "set (map fst ?stats)"
  have ok: "stats_ok ns ?stats" by (rule stats_ok_foldl)
  then have dist: "distinct (map fst ?stats)" by (simp add: stats_ok_def)
  have outside: "groupDurations k ns = []" if "k \<notin> ?K" for k
  proof -
    from that have "map_of ?stats k = None"
      by (simp add: map_of_eq_None_iff)
    with ok show ?thesis
      unfolding stats_ok_def by (metis option.simps(4))
  qed
  have all: "filter (\<lambda>n. qualifies (info n)) ns = ns"
    using whole by (simp add: filter_id_conv)
  have "sum_list (map total_time (map snd (methodStatsOf ns)))
      = sum_list (map (\<lambda>k. sum_list (groupDurations k ns)) (map fst ?stats))"
    using group_totals_exact [of ns] whole bound by simp
  also have "\<dots> = (\<Sum>k\<in>?K. sum_list (groupDurations k ns))"
    using dist by (rule sum_list_distinct_conv_sum_set)
  also have "\<dots> = sum_list (map (\<lambda>n. orZero (duration (info n)))
      (filter (\<lambda>n. qualifies (info n)) ns))"
    by (rule groups_partition [OF _ outside]) simp_all
  finally show ?thesis by (simp only: all)
qed

text \<open>
  C6, as stated, fails on doubles: the groups add the durations in another order than
  \<open>totalTime\<close> does. Three nodes with the durations 0.1 (method \<open>A#m\<close>), 0.2 and 0.3
  (both \<open>B#m\<close>), all present and positive: the group totals are 0.5 and 0.1 and their sum
  is 0.6, while \<open>totalTime\<close> is \<open>(0.1 + 0.2) + 0.3 = 0.6000000000000001\<close>.
\<close>

theorem group_totals_counterexample:
  "map (qualifies \<circ> info) (collectNodes roundingForest) = [True, True, True]
   \<and> js_sum (map total_time (rankedByTotalTime (collectNodes roundingForest)))
      = 5404319552844595 / 9007199254740992
   \<and> totalTime (PerformanceAnalysis roundingForest) = 1351079888211149 / 2251799813685248
   \<and> js_sum (map total_time (rankedByTotalTime (collectNodes roundingForest)))
      \<noteq> totalTime (PerformanceAnalysis roundingForest)"
proof -
  have q: "map (qualifies \<circ> info) (collectNodes roundingForest) = [True, True, True]"
    by code_simp
  have groups: "js_sum (map total_time (rankedByTotalTime (collectNodes roundingForest)))
      = 5404319552844595 / 9007199254740992"
    by code_simp
  have "js_sum (map (\<lambda>n. orZero (duration (info n))) (collectNodes roundingForest))
      = 1351079888211149 / 2251799813685248"
    by code_simp
  then have total: "totalTime (PerformanceAnalysis roundingForest)
      = 1351079888211149 / 2251799813685248"
    by (simp only: totalTime_js_sum)
  have "(5404319552844595 / 9007199254740992 :: rat) \<noteq> 1351079888211149 / 2251799813685248"
    by simp
  with q groups total show ?thesis by (simp only: simp_thms)
qed

text \<open>
  C6, amended. Where no addition rounds the two agree: for every forest in which every
  node has a present, positive duration that is a whole number, the durations summing to
  less than \<open>2^53\<close>, the sum of \<open>total_time\<close> over all groups (before the truncation to
  the top 10) equals \<open>totalTime\<close>, which is the sum of the durations of all flattened
  nodes; \<open>totalCalls\<close> is the number of flattened nodes.
\<close>

theorem group_totals_roundtrip:
  assumes "\<forall>n \<in> set (collectNodes forest).
      qualifies (info n) \<and> orZero (duration (info n)) \<in> \<nat>"
    and "sum_list (map (\<lambda>n. orZero (duration (info n))) (collectNodes forest)) < 2 ^ 53"
  shows "js_sum (map total_time (rankedByTotalTime (collectNodes forest)))
       = totalTime (PerformanceAnalysis forest)
     \<and> totalTime (PerformanceAnalysis forest)
       = sum_list (map (\<lambda>n. orZero (duration (info n))) (collectNodes forest))
     \<and> totalCalls (PerformanceAnalysis forest) = length (collectNodes forest)"
proof -
  let ?ns = "collectNodes forest"
  let ?D = "map (\<lambda>n. orZero (duration (info n))) ?ns"
  let ?ranked = "rankedByTotalTime ?ns"
  from assms(1) have whole: "\<And>n. n \<in> set ?ns \<Longrightarrow>
      qualifies (info n) \<and> orZero (duration (info n)) \<in> \<nat>"
    by blast
  have total: "totalTime (PerformanceAnalysis forest) = sum_list ?D"
  proof -
    have "\<And>x. x \<in> set ?D \<Longrightarrow> x \<in> \<nat>" using whole by auto
    then have "js_sum ?D = sum_list ?D" using assms(2) by (rule js_sum_whole)
    then show ?thesis by (simp only: totalTime_js_sum)
  qed
  have sum_ranked: "sum_list (map total_time ?ranked) = sum_list ?D"
    unfolding rankedByTotalTime_def sum_list_sortBy
    using group_totals_sum [of ?ns] whole assms(2) by simp
  have whole_ranked: "x \<in> \<nat>" if "x \<in> set (map total_time ?ranked)" for x
  proof -
    from that have "x \<in> total_time ` set (sortBy (\<lambda>a b. js_sub (total_time b) (total_time a))
        (map snd (methodStatsOf ?ns)))"
      by (simp add: rankedByTotalTime_def)
    then have "x \<in> total_time ` set (map snd (methodStatsOf ?ns))"
      by (simp only: set_sortBy)
    then have "x \<in> set (map total_time (map snd (methodStatsOf ?ns)))"
      by (simp only: set_map)
    moreover have "map total_time (map snd (methodStatsOf ?ns))
        = map (\<lambda>k. sum_list (groupDurations k ?ns)) (map fst (foldl analyzeNode [] ?ns))"
      by (rule group_totals_exact) (use whole assms(2) in blast)+
    ultimately have "x \<in> set (map (\<lambda>k. sum_list (groupDurations k ?ns))
        (map fst (foldl analyzeNode [] ?ns)))"
      by (simp only:)
    then obtain k where x: "x = sum_list (groupDurations k ?ns)" by auto
    have "\<And>y. y \<in> set (groupDurations k ?ns) \<Longrightarrow> y \<in> \<nat>"
      using set_groupDurations [of k ?ns] whole by auto
    then show ?thesis unfolding x by (rule sum_list_whole)
  qed
  have "js_sum (map total_time ?ranked) = sum_list (map total_time ?ranked)"
  proof (rule js_sum_whole)
    show "\<And>x. x \<in> set (map total_time ?ranked) \<Longrightarrow> x \<in> \<nat>" by (rule whole_ranked)
    show "sum_list (map total_time ?ranked) < 2 ^ 53" using sum_ranked assms(2) by simp
  qed
  with sum_ranked total
  have "js_sum (map total_time ?ranked) = totalTime (PerformanceAnalysis forest)"
    by simp
  moreover have "totalCalls (PerformanceAnalysis forest) = length ?ns"
    by (simp add: PerformanceAnalysis_def Let_def)
  ultimately show ?thesis using total by blast
qed

theorem group_totals_roundtrip_witness:
  "map (\<lambda>n. (qualifies (info n), orZero (duration (info n)))) (collectNodes
        [mkNode 0 (Some ''A'') ''m'' (Some 5) [mkNode 1 (Some ''B'') ''m'' (Some 3) []],
         mkNode 2 (Some ''B'') ''m'' (Some 4) []]) = [(True, 5), (True, 3), (True, 4)]
   \<and> js_sum (map total_time (rankedByTotalTime (collectNodes
        [mkNode 0 (Some ''A'') ''m'' (Some 5) [mkNode 1 (Some ''B'') ''m'' (Some 3) []],
         mkNode 2 (Some ''B'') ''m'' (Some 4) []]))) = 12
   \<and> totalTime (PerformanceAnalysis
        [mkNode 0 (Some ''A'') ''m'' (Some 5) [mkNode 1 (Some ''B'') ''m'' (Some 3) []],
         mkNode 2 (Some ''B'') ''m'' (Some 4) []]) = 12
   \<and> totalCalls (PerformanceAnalysis
        [mkNode 0 (Some ''A'') ''m'' (Some 5) [mkNode 1 (Some ''B'') ''m'' (Some 3) []],
         mkNode 2 (Some ''B'') ''m'' (Some 4) []]) = 3"
proof -
  let ?forest = "[mkNode 0 (Some ''A'') ''m'' (Some 5) [mkNode 1 (Some ''B'') ''m'' (Some 3) []],
         mkNode 2 (Some ''B'') ''m'' (Some 4) []]"
  have ns: "collectNodes ?forest
      = [mkNode 0 (Some ''A'') ''m'' (Some 5) [mkNode 1 (Some ''B'') ''m'' (Some 3) []],
         mkNode 1 (Some ''B'') ''m'' (Some 3) [], mkNode 2 (Some ''B'') ''m'' (Some 4) []]"
    by (simp add: mkNode_def)
  have h1: "\<forall>n \<in> set (collectNodes ?forest).
      qualifies (info n) \<and> orZero (duration (info n)) \<in> \<nat>"
    unfolding ns by (simp add: mkNode_def newNodeInfo_def mkEvent_def qualifies_def orZero_def)
  have h2: "sum_list (map (\<lambda>n. orZero (duration (info n))) (collectNodes ?forest)) < 2 ^ 53"
    unfolding ns by (simp add: mkNode_def newNodeInfo_def mkEvent_def orZero_def)
  have s: "sum_list (map (\<lambda>n. orZero (duration (info n))) (collectNodes ?forest)) = 12"
    unfolding ns by (simp add: mkNode_def newNodeInfo_def mkEvent_def orZero_def)
  have l: "length (collectNodes ?forest) = 3"
    unfolding ns by simp
  have h0: "map (\<lambda>n. (qualifies (info n), orZero (duration (info n)))) (collectNodes ?forest)
      = [(True, 5), (True, 3), (True, 4)]"
    unfolding ns by (simp add: mkNode_def newNodeInfo_def mkEvent_def qualifies_def orZero_def)
  from group_totals_roundtrip [OF h1 h2] h0 show ?thesis
    unfolding s l by simp
qed

section \<open>The heap of the reconstruction against its applicative account\<close>

lemma repr_mono:
  assumes "repr h A a t" and "A \<subseteq> B"
  shows "repr h B a t"
  using assms(1)
proof (induction rule: repr.induct)
  case (reprI a c i ts)
  from reprI.IH have "list_all2 (repr h B) (cchildren c) ts"
    by (rule list_all2_mono) simp
  with reprI.hyps assms(2) show ?case by (auto intro: repr.reprI)
qed

lemma repr_frame:
  assumes "repr h A a t" and "\<And>x. x \<in> A \<Longrightarrow> h' x = h x"
  shows "repr h' A a t"
  using assms(1)
proof (induction rule: repr.induct)
  case (reprI a c i ts)
  from reprI.IH have "list_all2 (repr h' A) (cchildren c) ts"
    by (rule list_all2_mono) simp
  moreover from reprI.hyps assms(2) have "h' a = Some c" by simp
  ultimately show ?case using reprI.hyps by (auto intro: repr.reprI)
qed

lemma reprs_mono:
  assumes "list_all2 (repr h A) as ts" and "A \<subseteq> B"
  shows "list_all2 (repr h B) as ts"
  using assms(1) by (rule list_all2_mono) (rule repr_mono [OF _ assms(2)])

lemma reprs_frame:
  assumes "list_all2 (repr h A) as ts" and "\<And>x. x \<in> A \<Longrightarrow> h' x = h x"
  shows "list_all2 (repr h' A) as ts"
  using assms(1) by (rule list_all2_mono) (rule repr_frame [OF _ assms(2)])

lemma framesOk_mono:
  assumes "framesOk h A ab fs" and "A \<subseteq> B"
  shows "framesOk h B ab fs"
  using assms(1)
proof (induction fs arbitrary: ab)
  case Nil
  then show ?case by simp
next
  case (Cons f fs)
  obtain a i ts where f: "f = (a, i, ts)" by (cases f)
  from Cons.prems obtain c kids where c: "h a = Some c" "cinfo c = i"
      "cchildren c = kids @ (case ab of None \<Rightarrow> [] | Some b \<Rightarrow> [b])"
      "list_all2 (repr h A) kids ts" and rest: "framesOk h A (Some a) fs"
    by (auto simp add: f)
  from c(4) have "list_all2 (repr h B) kids ts" by (rule reprs_mono) (rule assms(2))
  with c(1-3) Cons.IH [OF rest] show ?case by (auto simp add: f)
qed

text \<open>A heap that agrees on the finished addresses and on the frames' own cells.\<close>

lemma framesOk_frame:
  assumes "framesOk h A ab fs" and "\<And>x. x \<in> A \<Longrightarrow> h' x = h x"
    and "\<And>a. a \<in> set (map fst fs) \<Longrightarrow> h' a = h a"
  shows "framesOk h' A ab fs"
  using assms(1,3)
proof (induction fs arbitrary: ab)
  case Nil
  then show ?case by simp
next
  case (Cons f fs)
  obtain a i ts where f: "f = (a, i, ts)" by (cases f)
  from Cons.prems(1) obtain c kids where c: "h a = Some c" "cinfo c = i"
      "cchildren c = kids @ (case ab of None \<Rightarrow> [] | Some b \<Rightarrow> [b])"
      "list_all2 (repr h A) kids ts" and rest: "framesOk h A (Some a) fs"
    by (auto simp add: f)
  from c(4) have k: "list_all2 (repr h' A) kids ts" by (rule reprs_frame) (rule assms(2))
  have "h' a = h a" using Cons.prems(2) by (simp add: f)
  with c(1) have "h' a = Some c" by simp
  moreover have "framesOk h' A (Some a) fs"
    using rest Cons.prems(2) by (intro Cons.IH) simp_all
  ultimately show ?case using c(2,3) k by (auto simp add: f)
qed
lemma finished_pop: "finished n (a # st) \<subseteq> finished n st"
  by (auto simp add: finished_def)

lemma repr_popped:
  assumes "h a = Some c" and "cinfo c = i" and "cchildren c = kids"
    and "list_all2 (repr h (finished n (a # st))) kids ts"
    and "a < n" and "a \<notin> set st"
  shows "repr h (finished n st) a (TreeNode i ts)"
proof -
  have "list_all2 (repr h (finished n st)) (cchildren c) ts"
    using assms(4) unfolding assms(3) by (rule reprs_mono) (rule finished_pop)
  moreover have "a \<in> finished n st" using assms(5,6) by (simp add: finished_def)
  ultimately show ?thesis using assms(1,2) by (auto intro: repr.reprI)
qed

lemma calls_after_pop:
  assumes "\<forall>k x. cs k = Some x \<longrightarrow>
      (\<exists>i' ts'. (x, i', ts') \<in> set ((a, i, ts) # fs) \<and> k = callKey (depth i') (method_name i'))"
    and "a \<notin> set (map fst fs)"
    and "\<And>x i' ts'. (x, i', ts') \<in> set fs \<Longrightarrow> \<exists>ts''. (x, i', ts'') \<in> set fs'"
  shows "\<forall>k x. (cs (callKey (depth i) (method_name i) := None)) k = Some x \<longrightarrow>
      (\<exists>i' ts'. (x, i', ts') \<in> set fs' \<and> k = callKey (depth i') (method_name i'))"
proof (intro allI impI)
  fix k x
  assume "(cs (callKey (depth i) (method_name i) := None)) k = Some x"
  then have k: "k \<noteq> callKey (depth i) (method_name i)" "cs k = Some x"
    by (auto split: if_splits)
  with assms(1) obtain i' ts' where m: "(x, i', ts') \<in> set ((a, i, ts) # fs)"
      "k = callKey (depth i') (method_name i')"
    by blast
  from m k(1) have "(x, i', ts') \<in> set fs" by auto
  from assms(3) [OF this] m(2) show "\<exists>i' ts'. (x, i', ts') \<in> set fs'
      \<and> k = callKey (depth i') (method_name i')"
    by blast
qed

lemma stackOkD:
  assumes "stackOk n st cs fs"
  shows "st = map fst fs" and "distinct st" and "\<forall>a \<in> set st. a < n"
    and "\<forall>k x. cs k = Some x \<longrightarrow>
      (\<exists>i' ts'. (x, i', ts') \<in> set fs \<and> k = callKey (depth i') (method_name i'))"
  using assms unfolding stackOk_def by blast+

lemma stackOkI:
  assumes "st = map fst fs" and "distinct st" and "\<forall>a \<in> set st. a < n"
    and "\<forall>k x. cs k = Some x \<longrightarrow>
      (\<exists>i' ts'. (x, i', ts') \<in> set fs \<and> k = callKey (depth i') (method_name i'))"
  shows "stackOk n st cs fs"
  using assms unfolding stackOk_def by blast

lemma pop_last:
  assumes "stackOk n [a] cs [(a, i, ts)]"
    and "framesOk h (finished n [a]) None [(a, i, ts)]"
    and "rootsOk h (finished n [a]) roots dn [(a, i, ts)]"
  shows "stackOk n [] (cs (callKey (depth i) (method_name i) := None)) []
    \<and> framesOk h (finished n []) None []
    \<and> rootsOk h (finished n []) roots (dn @ [TreeNode i ts]) []"
proof -
  from stackOkD(3) [OF assms(1)] have a: "a < n" by simp
  note calls = stackOkD(4) [OF assms(1)]
  from assms(2) obtain c where c: "h a = Some c" "cinfo c = i"
      "list_all2 (repr h (finished n [a])) (cchildren c) ts"
    by auto
  have r: "repr h (finished n []) a (TreeNode i ts)"
    by (rule repr_popped [OF c(1,2) refl c(3) a]) simp
  from assms(3) obtain rs where rs: "roots = rs @ [a]" "list_all2 (repr h (finished n [a])) rs dn"
    by (auto simp add: rootsOk_def)
  from rs(2) have "list_all2 (repr h (finished n [])) rs dn"
    by (rule reprs_mono) (rule finished_pop)
  with r have "list_all2 (repr h (finished n [])) (rs @ [a]) (dn @ [TreeNode i ts])"
    by (simp add: list_all2_appendI)
  then have roots: "rootsOk h (finished n []) roots (dn @ [TreeNode i ts]) []"
    unfolding rootsOk_def rs(1) by simp
  have "\<forall>k x. (cs (callKey (depth i) (method_name i) := None)) k = Some x \<longrightarrow>
      (\<exists>i' ts'. (x, i', ts') \<in> set ([] :: frame list)
         \<and> k = callKey (depth i') (method_name i'))"
    by (rule calls_after_pop [OF calls]) simp_all
  then have "stackOk n [] (cs (callKey (depth i) (method_name i) := None)) []"
    by (intro stackOkI) simp_all
  with roots show ?thesis by simp
qed

lemma pop_inner:
  assumes "stackOk n (a # b # st) cs ((a, i, ts) # (b, j, us) # fs)"
    and "framesOk h (finished n (a # b # st)) None ((a, i, ts) # (b, j, us) # fs)"
    and "rootsOk h (finished n (a # b # st)) roots dn ((a, i, ts) # (b, j, us) # fs)"
  shows "stackOk n (b # st) (cs (callKey (depth i) (method_name i) := None))
        ((b, j, us @ [TreeNode i ts]) # fs)
    \<and> framesOk h (finished n (b # st)) None ((b, j, us @ [TreeNode i ts]) # fs)
    \<and> rootsOk h (finished n (b # st)) roots dn ((b, j, us @ [TreeNode i ts]) # fs)"
proof -
  let ?A = "finished n (a # b # st)"
  let ?A' = "finished n (b # st)"
  have sub: "?A \<subseteq> ?A'" by (rule finished_pop)
  from stackOkD(1) [OF assms(1)] have st1: "b # st = map fst ((b, j, us) # fs)" by simp
  note st2 = stackOkD(2) [OF assms(1)]
  from stackOkD(3) [OF assms(1)] have st3: "a < n" and st4: "\<forall>x \<in> set (b # st). x < n"
    by simp_all
  note st = st1 st2 st3 st4
  note calls = stackOkD(4) [OF assms(1)]
  from assms(2) obtain c where c: "h a = Some c" "cinfo c = i"
      "list_all2 (repr h ?A) (cchildren c) ts"
    by auto
  from assms(2) obtain d kids where d: "h b = Some d" "cinfo d = j"
      "cchildren d = kids @ [a]" "list_all2 (repr h ?A) kids us"
    and below: "framesOk h ?A (Some b) fs"
    by auto
  have r: "repr h ?A' a (TreeNode i ts)"
    by (rule repr_popped [OF c(1,2) refl c(3) st(3)]) (use st(2) in simp)
  from d(4) have "list_all2 (repr h ?A') kids us" by (rule reprs_mono) (rule sub)
  with r have "list_all2 (repr h ?A') (kids @ [a]) (us @ [TreeNode i ts])"
    by (simp add: list_all2_appendI)
  moreover from below have "framesOk h ?A' (Some b) fs" by (rule framesOk_mono) (rule sub)
  ultimately have frames: "framesOk h ?A' None ((b, j, us @ [TreeNode i ts]) # fs)"
    using d(1-3) by simp
  from assms(3) obtain rs where rs:
      "roots = rs @ [fst (last ((a, i, ts) # (b, j, us) # fs))]" "list_all2 (repr h ?A) rs dn"
    by (auto simp add: rootsOk_def)
  from rs(2) have "list_all2 (repr h ?A') rs dn" by (rule reprs_mono) (rule sub)
  moreover have "fst (last ((a, i, ts) # (b, j, us) # fs))
      = fst (last ((b, j, us @ [TreeNode i ts]) # fs))"
    by (cases fs) simp_all
  ultimately have roots: "rootsOk h ?A' roots dn ((b, j, us @ [TreeNode i ts]) # fs)"
    unfolding rootsOk_def using rs(1) by auto
  have notin: "a \<notin> set (map fst ((b, j, us) # fs))"
    using st(1,2) by (metis distinct.simps(2))
  have "\<forall>k x. (cs (callKey (depth i) (method_name i) := None)) k = Some x \<longrightarrow>
      (\<exists>i' ts'. (x, i', ts') \<in> set ((b, j, us @ [TreeNode i ts]) # fs)
         \<and> k = callKey (depth i') (method_name i'))"
    by (rule calls_after_pop [OF calls notin]) auto
  moreover have "b # st = map fst ((b, j, us @ [TreeNode i ts]) # fs)"
    using st(1) by simp
  moreover have "distinct (b # st)" using st(2) by simp
  ultimately have "stackOk n (b # st) (cs (callKey (depth i) (method_name i) := None))
        ((b, j, us @ [TreeNode i ts]) # fs)"
    using st(4) by (intro stackOkI)
  with frames roots show ?thesis by simp
qed

lemma popLoop_sim:
  assumes "stackOk n st cs fs" and "framesOk h (finished n st) None fs"
    and "rootsOk h (finished n st) roots dn fs"
  shows "\<exists>st' cs' dn' fs'. popLoop h lvl st cs = (st', cs') \<and> zpopLoop lvl dn fs cs = (dn', fs', cs')
    \<and> stackOk n st' cs' fs' \<and> framesOk h (finished n st') None fs'
    \<and> rootsOk h (finished n st') roots dn' fs'"
  using assms
proof (induction lvl dn fs cs arbitrary: st rule: zpopLoop.induct)
  case (1 lvl dn cs)
  from stackOkD(1) [OF "1.prems"(1)] have st: "st = []" by simp
  from "1.prems" show ?case unfolding st by simp
next
  case (2 lvl dn a i ts cs)
  from stackOkD(1) [OF "2.prems"(1)] have st: "st = [a]" by simp
  from "2.prems"(2) obtain c where c: "h a = Some c" "cinfo c = i" by auto
  show ?case
  proof (cases "lvl \<le> level i")
    case True
    let ?cs = "cs (callKey (depth i) (method_name i) := None)"
    from pop_last [OF "2.prems" [unfolded st]]
    have "\<exists>st' cs' dn' fs'. popLoop h lvl [] ?cs = (st', cs')
        \<and> zpopLoop lvl (dn @ [TreeNode i ts]) [] ?cs = (dn', fs', cs')
        \<and> stackOk n st' cs' fs' \<and> framesOk h (finished n st') None fs'
        \<and> rootsOk h (finished n st') roots dn' fs'"
      by (intro "2.IH" [OF True]) blast+
    moreover have "popLoop h lvl st cs = popLoop h lvl [] ?cs"
      using True c by (simp add: st)
    moreover have "zpopLoop lvl dn [(a, i, ts)] cs = zpopLoop lvl (dn @ [TreeNode i ts]) [] ?cs"
      using True by simp
    ultimately show ?thesis by (simp only:)
  next
    case False
    then have "popLoop h lvl st cs = (st, cs)" "zpopLoop lvl dn [(a, i, ts)] cs = (dn, [(a, i, ts)], cs)"
      using c by (simp_all add: st)
    with "2.prems" show ?thesis by blast
  qed
next
  case (3 lvl dn a i ts b j us fs cs)
  from stackOkD(1) [OF "3.prems"(1)] obtain st0 where st: "st = a # b # st0" by auto
  from "3.prems"(2) obtain c where c: "h a = Some c" "cinfo c = i" by auto
  show ?case
  proof (cases "lvl \<le> level i")
    case True
    let ?cs = "cs (callKey (depth i) (method_name i) := None)"
    from pop_inner [OF "3.prems" [unfolded st]]
    have "\<exists>st' cs' dn' fs'. popLoop h lvl (b # st0) ?cs = (st', cs')
        \<and> zpopLoop lvl dn ((b, j, us @ [TreeNode i ts]) # fs) ?cs = (dn', fs', cs')
        \<and> stackOk n st' cs' fs' \<and> framesOk h (finished n st') None fs'
        \<and> rootsOk h (finished n st') roots dn' fs'"
      by (intro "3.IH" [OF True]) blast+
    moreover have "popLoop h lvl st cs = popLoop h lvl (b # st0) ?cs"
      using True c by (simp add: st)
    moreover have "zpopLoop lvl dn ((a, i, ts) # (b, j, us) # fs) cs
        = zpopLoop lvl dn ((b, j, us @ [TreeNode i ts]) # fs) ?cs"
      using True by simp
    ultimately show ?thesis by (simp only:)
  next
    case False
    then have "popLoop h lvl st cs = (st, cs)"
        "zpopLoop lvl dn ((a, i, ts) # (b, j, us) # fs) cs = (dn, (a, i, ts) # (b, j, us) # fs, cs)"
      using c by (simp_all add: st)
    with "3.prems" show ?thesis by blast
  qed
qed

lemma finished_Suc: "finished n st \<subseteq> finished (Suc n) st"
  by (auto simp add: finished_def)

lemma finished_push: "finished (Suc n) (n # st) = finished n st"
  by (auto simp add: finished_def)

lemma framesOk_cell:
  assumes "framesOk h A ab fs" and "(a, i, ts) \<in> set fs"
  shows "\<exists>c. h a = Some c \<and> cinfo c = i"
  using assms by (induction fs arbitrary: ab) auto

lemma mergeInfo_key [simp]:
  "depth (mergeInfo ev i) = depth i" "method_name (mergeInfo ev i) = method_name i"
  "level (mergeInfo ev i) = level i" "node_id (mergeInfo ev i) = node_id i"
  "isExpanded (mergeInfo ev i) = isExpanded i"
  by (simp_all add: mergeInfo_def)

lemma cinfo_mergeReturn [simp]:
  "cinfo (mergeReturn ev c) = mergeInfo ev (cinfo c)" "cchildren (mergeReturn ev c) = cchildren c"
  by (simp_all add: mergeReturn_def mergeInfo_def)

text \<open>Writing a return into the cell of one frame.\<close>

lemma framesOk_merge:
  assumes "framesOk h A ab fs" and "distinct (map fst fs)" and "a \<notin> A" and "h a = Some c"
  shows "framesOk (h (a \<mapsto> mergeReturn ev c)) A ab
     (map (\<lambda>(b, i, ts). if b = a then (b, mergeInfo ev i, ts) else (b, i, ts)) fs)"
proof -
  define h' where "h' = h (a \<mapsto> mergeReturn ev c)"
  have at: "h' a = Some (mergeReturn ev c)" and off: "\<And>x. x \<noteq> a \<Longrightarrow> h' x = h x"
    by (simp_all add: h'_def)
  have agree: "h' x = h x" if "x \<in> A" for x
  proof -
    from that assms(3) have "x \<noteq> a" by blast
    then show ?thesis by (rule off)
  qed
  have "framesOk h' A ab
     (map (\<lambda>(b, i, ts). if b = a then (b, mergeInfo ev i, ts) else (b, i, ts)) fs)"
    using assms(1,2)
  proof (induction fs arbitrary: ab)
    case Nil
    then show ?case by simp
  next
    case (Cons f fs)
    obtain b i ts where f: "f = (b, i, ts)" by (cases f)
    from Cons.prems(1) obtain d kids where d: "h b = Some d" "cinfo d = i"
        "cchildren d = kids @ (case ab of None \<Rightarrow> [] | Some x \<Rightarrow> [x])"
        "list_all2 (repr h A) kids ts" and rest: "framesOk h A (Some b) fs"
      by (auto simp add: f)
    from d(4) have kids: "list_all2 (repr h' A) kids ts" by (rule reprs_frame) (rule agree)
    from Cons.prems(2) have "distinct (map fst fs)" by simp
    with rest have IH: "framesOk h' A (Some b)
       (map (\<lambda>(b, i, ts). if b = a then (b, mergeInfo ev i, ts) else (b, i, ts)) fs)"
      by (rule Cons.IH)
    show ?case
    proof (cases "b = a")
      case True
      with d(1) assms(4) have dc: "d = c" by simp
      have "h' b = Some (mergeReturn ev c)" using True at by simp
      moreover have "cinfo (mergeReturn ev c) = mergeInfo ev i" using d(2) dc by simp
      moreover have "cchildren (mergeReturn ev c)
          = kids @ (case ab of None \<Rightarrow> [] | Some x \<Rightarrow> [x])"
        using d(3) dc by simp
      ultimately have "framesOk h' A ab ((b, mergeInfo ev i, ts) # 
          map (\<lambda>(b, i, ts). if b = a then (b, mergeInfo ev i, ts) else (b, i, ts)) fs)"
        using kids IH by (auto simp del: cinfo_mergeReturn)
      with True show ?thesis by (simp add: f)
    next
      case False
      then have "h' b = Some d" using d(1) off by simp
      then have "framesOk h' A ab ((b, i, ts) # 
          map (\<lambda>(b, i, ts). if b = a then (b, mergeInfo ev i, ts) else (b, i, ts)) fs)"
        using d(2,3) kids IH by simp
      with False show ?thesis by (simp add: f)
    qed
  qed
  then show ?thesis by (simp only: h'_def)
qed

lemma sim_return:
  assumes "sim n s z" and "event ev = Return"
  shows "sim (Suc n) (processEvent s (n, ev)) (zstep z (n, ev))"
proof -
  let ?key = "callKey (depth ev) (method_name ev)"
  let ?A = "finished n (stack s)"
  let ?A' = "finished (Suc n) (stack s)"
  from assms(1) have ok: "stackOk n (stack s) (callStack s) (zframes z)"
    and calls: "callStack s = zcalls z"
    and frames: "framesOk (cells s) ?A None (zframes z)"
    and roots: "rootsOk (cells s) ?A (nodes s) (zdone z) (zframes z)"
    unfolding sim_def by blast+
  note st = stackOkD [OF ok]
  have sub: "?A \<subseteq> ?A'" by (rule finished_Suc)
  have lt: "\<forall>a \<in> set (stack s). a < Suc n" using st(3) by auto
  show ?thesis
  proof (cases "callStack s ?key")
    case None
    then have same: "processEvent s (n, ev) = s" "zstep z (n, ev) = z"
      using assms(2) calls by (simp_all add: processEvent_def zstep_def Let_def)
    have "stackOk (Suc n) (stack s) (callStack s) (zframes z)"
      using st(1,2) lt st(4) by (rule stackOkI)
    moreover have "framesOk (cells s) ?A' None (zframes z)"
      using frames sub by (rule framesOk_mono)
    moreover have "rootsOk (cells s) ?A' (nodes s) (zdone z) (zframes z)"
      using roots sub unfolding rootsOk_def by (blast intro: reprs_mono)
    ultimately show ?thesis unfolding same sim_def using calls by blast
  next
    case (Some a)
    with st(4) obtain i ts where a: "(a, i, ts) \<in> set (zframes z)"
      by blast
    from framesOk_cell [OF frames a] obtain c where c: "cells s a = Some c" by blast
    let ?h = "(cells s) (a \<mapsto> mergeReturn ev c)"
    let ?upd = "\<lambda>(b, i, ts). if b = a then (b, mergeInfo ev i, ts) else (b, i, ts)"
    let ?fs = "map ?upd (zframes z)"
    let ?cs = "(callStack s) (?key := None)"
    have s': "processEvent s (n, ev) = s \<lparr> cells := ?h, callStack := ?cs \<rparr>"
      using assms(2) Some c by (simp add: processEvent_def Let_def)
    have z': "zstep z (n, ev) = z \<lparr> zframes := ?fs, zcalls := ?cs \<rparr>"
      using assms(2) Some calls by (simp add: zstep_def Let_def)
    have "a \<in> set (stack s)" using a st(1) by force
    then have notin: "a \<notin> ?A'" by (simp add: finished_def)
    have agree: "\<And>x. x \<in> ?A' \<Longrightarrow> ?h x = cells s x" using notin by auto
    have fst_upd: "map fst ?fs = map fst (zframes z)"
      by (induction "zframes z") (auto split: prod.splits)
    have f0: "framesOk (cells s) ?A' None (zframes z)" using frames sub by (rule framesOk_mono)
    have d0: "distinct (map fst (zframes z))" using st(1,2) by simp
    have f1: "framesOk ?h ?A' None ?fs"
      using f0 d0 notin c by (rule framesOk_merge)
    from roots obtain rs where rs:
        "nodes s = rs @ (case zframes z of [] \<Rightarrow> [] | _ # _ \<Rightarrow> [fst (last (zframes z))])"
        "list_all2 (repr (cells s) ?A) rs (zdone z)"
      unfolding rootsOk_def by blast
    have "list_all2 (repr ?h ?A') rs (zdone z)"
      using reprs_mono [OF rs(2) sub] agree by (rule reprs_frame)
    moreover have "(case ?fs of [] \<Rightarrow> [] | _ # _ \<Rightarrow> [fst (last ?fs)])
        = (case zframes z of [] \<Rightarrow> [] | _ # _ \<Rightarrow> [fst (last (zframes z))])"
    proof (cases "zframes z")
      case Nil
      then show ?thesis by simp
    next
      case (Cons f fs)
      then have "zframes z \<noteq> []" by simp
      then have "fst (last ?fs) = fst (last (zframes z))"
        by (simp add: last_map split: prod.splits)
      then show ?thesis using Cons by simp
    qed
    ultimately have r1: "rootsOk ?h ?A' (nodes s) (zdone z) ?fs"
      unfolding rootsOk_def using rs(1) by auto
    have c1: "\<forall>k x. ?cs k = Some x \<longrightarrow>
        (\<exists>i' ts'. (x, i', ts') \<in> set ?fs \<and> k = callKey (depth i') (method_name i'))"
    proof (intro allI impI)
      fix k x
      assume "?cs k = Some x"
      then have "callStack s k = Some x" by (auto split: if_splits)
      with st(4) obtain i' ts' where m: "(x, i', ts') \<in> set (zframes z)"
          "k = callKey (depth i') (method_name i')"
        by blast
      from m(1) have mem: "?upd (x, i', ts') \<in> set ?fs" by (simp only: set_map) (rule imageI)
      show "\<exists>i' ts'. (x, i', ts') \<in> set ?fs \<and> k = callKey (depth i') (method_name i')"
      proof (cases "x = a")
        case True
        then have "?upd (x, i', ts') = (x, mergeInfo ev i', ts')" by simp
        with mem have "(x, mergeInfo ev i', ts') \<in> set ?fs" by (simp only:)
        moreover have "k = callKey (depth (mergeInfo ev i')) (method_name (mergeInfo ev i'))"
          using m(2) by simp
        ultimately show ?thesis by blast
      next
        case False
        then have "?upd (x, i', ts') = (x, i', ts')" by simp
        with mem have "(x, i', ts') \<in> set ?fs" by (simp only:)
        with m(2) show ?thesis by blast
      qed
    qed
    have "stackOk (Suc n) (stack s) ?cs ?fs"
      using st(1) [folded fst_upd] st(2) lt c1 by (rule stackOkI)
    with f1 r1 show ?thesis
      unfolding s' z' sim_def using calls by simp
  qed
qed

lemma newNodeInfo_fields [simp]:
  "depth (newNodeInfo n ev) = depth ev" "method_name (newNodeInfo n ev) = method_name ev"
  "level (newNodeInfo n ev) = depth ev" "node_id (newNodeInfo n ev) = ''node-'' @ decimal n"
  "isExpanded (newNodeInfo n ev) = True" "event (newNodeInfo n ev) = event ev"
  by (simp_all add: newNodeInfo_def)

lemma sim_push:
  assumes "sim n s z" and "event ev \<noteq> Return"
  shows "sim (Suc n) (processEvent s (n, ev)) (zstep z (n, ev))"
proof -
  let ?node = "newNodeInfo n ev"
  let ?h = "cells s"
  from assms(1) have ok: "stackOk n (stack s) (callStack s) (zframes z)"
    and calls: "callStack s = zcalls z"
    and frames: "framesOk ?h (finished n (stack s)) None (zframes z)"
    and roots: "rootsOk ?h (finished n (stack s)) (nodes s) (zdone z) (zframes z)"
    unfolding sim_def by blast+
  from popLoop_sim [OF ok frames roots, of "level ?node"]
  obtain st1 cs1 dn1 fs1 where pop: "popLoop ?h (level ?node) (stack s) (callStack s) = (st1, cs1)"
      "zpopLoop (level ?node) (zdone z) (zframes z) (callStack s) = (dn1, fs1, cs1)"
    and ok1: "stackOk n st1 cs1 fs1"
    and frames1: "framesOk ?h (finished n st1) None fs1"
    and roots1: "rootsOk ?h (finished n st1) (nodes s) dn1 fs1"
    by blast
  let ?A = "finished n st1"
  note st = stackOkD [OF ok1]
  define cs2 where "cs2 = (if event ev = Call
      then cs1 (callKey (depth ev) (method_name ev) \<mapsto> n) else cs1)"
  define cells1 where "cells1 = (case st1 of [] \<Rightarrow> ?h
      | p # _ \<Rightarrow> (case ?h p of None \<Rightarrow> ?h
          | Some parent \<Rightarrow> ?h (p \<mapsto> parent \<lparr> cchildren := cchildren parent @ [n] \<rparr>)))"
  define cell where "cell = \<lparr> cinfo = ?node, cchildren = [],
      cparent = (case st1 of [] \<Rightarrow> None | p # _ \<Rightarrow> Some p) \<rparr>"
  define nodes1 where "nodes1 = (case st1 of [] \<Rightarrow> nodes s @ [n] | _ # _ \<Rightarrow> nodes s)"
  define h' where "h' = cells1 (n \<mapsto> cell)"
  have s': "processEvent s (n, ev)
      = \<lparr> cells = h', nodes = nodes1, stack = n # st1, callStack = cs2 \<rparr>"
    using assms(2) pop(1)
    by (simp add: processEvent_def Let_def cs2_def cells1_def cell_def nodes1_def h'_def)
  have z': "zstep z (n, ev) = \<lparr> zdone = dn1, zframes = (n, ?node, []) # fs1, zcalls = cs2 \<rparr>"
    using assms(2) pop(2) calls by (simp add: zstep_def Let_def cs2_def)
  have fresh: "n \<notin> set st1" using st(3) by auto
  have at_n: "h' n = Some cell" by (simp add: h'_def)
  have agree: "h' x = ?h x" if "x \<in> ?A" for x
  proof -
    from that have x: "x < n" "x \<notin> set st1" by (simp_all add: finished_def)
    then have "cells1 x = ?h x"
      by (cases st1) (auto simp add: cells1_def split: option.splits)
    with x(1) show ?thesis by (simp add: h'_def)
  qed
  have stack': "stackOk (Suc n) (n # st1) cs2 ((n, ?node, []) # fs1)"
  proof (rule stackOkI)
    show "n # st1 = map fst ((n, ?node, []) # fs1)" using st(1) by simp
    show "distinct (n # st1)" using st(2) fresh by simp
    show "\<forall>a \<in> set (n # st1). a < Suc n" using st(3) by auto
    show "\<forall>k x. cs2 k = Some x \<longrightarrow> (\<exists>i' ts'. (x, i', ts') \<in> set ((n, ?node, []) # fs1)
        \<and> k = callKey (depth i') (method_name i'))"
    proof (intro allI impI)
      fix k x
      assume a: "cs2 k = Some x"
      show "\<exists>i' ts'. (x, i', ts') \<in> set ((n, ?node, []) # fs1)
          \<and> k = callKey (depth i') (method_name i')"
      proof (cases "event ev = Call \<and> k = callKey (depth ev) (method_name ev)")
        case True
        with a have "x = n" by (simp add: cs2_def)
        moreover have "k = callKey (depth ?node) (method_name ?node)" using True by simp
        ultimately show ?thesis by auto
      next
        case False
        with a have "cs1 k = Some x" by (auto simp add: cs2_def split: if_splits)
        with st(4) obtain i' ts' where "(x, i', ts') \<in> set fs1"
            "k = callKey (depth i') (method_name i')"
          by blast
        then show ?thesis by auto
      qed
    qed
  qed
  have below: "framesOk h' ?A (Some n) fs1"
  proof (cases fs1)
    case Nil
    then show ?thesis by simp
  next
    case (Cons f rest)
    obtain p j us where f: "f = (p, j, us)" by (cases f)
    from st(1) Cons f obtain st0 where st1: "st1 = p # st0" "st0 = map fst rest" by auto
    from frames1 [unfolded Cons f] obtain parent where parent: "?h p = Some parent"
        "cinfo parent = j" "list_all2 (repr ?h ?A) (cchildren parent) us"
      and rest: "framesOk ?h ?A (Some p) rest"
      by auto
    have pn: "p \<noteq> n" using fresh st1 by auto
    have c1: "cells1 = ?h (p \<mapsto> parent \<lparr> cchildren := cchildren parent @ [n] \<rparr>)"
      by (simp add: cells1_def st1 parent)
    have at_p: "h' p = Some (parent \<lparr> cchildren := cchildren parent @ [n] \<rparr>)"
      using pn by (simp add: h'_def c1)
    have kids: "list_all2 (repr h' ?A) (cchildren parent) us"
      using parent(3) agree by (rule reprs_frame)
    have other: "h' a = ?h a" if "a \<in> set (map fst rest)" for a
    proof -
      from that st1 st(2) have "a \<noteq> p" by auto
      moreover from that st1 fresh have "a \<noteq> n" by auto
      ultimately show ?thesis by (simp add: h'_def c1)
    qed
    have "framesOk h' ?A (Some p) rest"
      using rest agree other by (rule framesOk_frame)
    with at_p parent(2) kids show ?thesis by (simp add: Cons f)
  qed
  have frames': "framesOk h' ?A None ((n, ?node, []) # fs1)"
    using at_n below by (simp add: cell_def)
  from roots1 obtain rs where rs:
      "nodes s = rs @ (case fs1 of [] \<Rightarrow> [] | _ # _ \<Rightarrow> [fst (last fs1)])"
      "list_all2 (repr ?h ?A) rs dn1"
    unfolding rootsOk_def by blast
  have rs': "list_all2 (repr h' ?A) rs dn1" using rs(2) agree by (rule reprs_frame)
  have "nodes1 = rs @ [fst (last ((n, ?node, []) # fs1))]"
  proof (cases fs1)
    case Nil
    with st(1) have "st1 = []" by simp
    with rs(1) Nil show ?thesis by (simp add: nodes1_def)
  next
    case (Cons f rest)
    with st(1) obtain p st0 where "st1 = p # st0" by auto
    with rs(1) Cons show ?thesis by (simp add: nodes1_def)
  qed
  with rs' have roots': "rootsOk h' ?A nodes1 dn1 ((n, ?node, []) # fs1)"
    unfolding rootsOk_def by simp
  show ?thesis
    unfolding s' z' sim_def using stack' frames' roots' by (simp add: finished_push)
qed

lemma sim_step:
  assumes "sim n s z"
  shows "sim (Suc n) (processEvent s (n, ev)) (zstep z (n, ev))"
  using assms by (cases "event ev = Return") (simp_all add: sim_return sim_push)

lemma sim_init: "sim 0 initState zinit"
  by (simp add: sim_def initState_def zinit_def stackOk_def rootsOk_def)

lemma sim_foldl:
  assumes "sim n s z"
  shows "sim (n + length evs) (foldl processEvent s (enumerate n evs))
     (foldl zstep z (enumerate n evs))"
  using assms
proof (induction evs arbitrary: n s z)
  case Nil
  then show ?case by simp
next
  case (Cons ev evs)
  from Cons.IH [OF sim_step [OF Cons.prems, of ev]] show ?case by simp
qed

lemma sim_run: "sim (length evs) (runEvents evs) (zrun evs)"
  using sim_foldl [OF sim_init, of evs] by (simp add: runEvents_def zrun_def)

section \<open>The nodes of the forest, in pre-order\<close>

lemma collectNodes_append: "collectNodes (xs @ ys) = collectNodes xs @ collectNodes ys"
  by (induction xs) simp_all

lemma cores_append: "cores (xs @ ys) = cores xs @ cores ys"
  by (simp add: cores_def collectNodes_append)

lemma cores_node: "cores [TreeNode i ts] = core i # cores ts"
  by (simp add: cores_def)

lemma cores_openTree:
  assumes "cores ys = cores xs @ l"
  shows "cores (openTree ys fs) = cores (openTree xs fs) @ l"
  using assms
proof (induction fs arbitrary: xs ys)
  case Nil
  then show ?case by simp
next
  case (Cons f fs)
  obtain a i ts where f: "f = (a, i, ts)" by (cases f)
  have "cores [TreeNode i (ts @ ys)] = cores [TreeNode i (ts @ xs)] @ l"
    using Cons.prems by (simp add: cores_node cores_append)
  from Cons.IH [OF this] show ?case by (simp add: f)
qed

lemma zpopLoop_forest:
  assumes "zpopLoop lvl dn fs cs = (dn', fs', cs')"
  shows "dn' @ openTree [] fs' = dn @ openTree [] fs"
  using assms
proof (induction lvl dn fs cs rule: zpopLoop.induct)
  case (1 lvl dn cs)
  then show ?case by simp
next
  case (2 lvl dn a i ts cs)
  show ?case
  proof (cases "lvl \<le> level i")
    case True
    with "2.prems" have "zpopLoop lvl (dn @ [TreeNode i ts]) []
        (cs (callKey (depth i) (method_name i) := None)) = (dn', fs', cs')"
      by simp
    from "2.IH" [OF True this] show ?thesis by simp
  next
    case False
    with "2.prems" show ?thesis by auto
  qed
next
  case (3 lvl dn a i ts b j us fs cs)
  show ?case
  proof (cases "lvl \<le> level i")
    case True
    with "3.prems" have "zpopLoop lvl dn ((b, j, us @ [TreeNode i ts]) # fs)
        (cs (callKey (depth i) (method_name i) := None)) = (dn', fs', cs')"
      by simp
    from "3.IH" [OF True this] show ?thesis by simp
  next
    case False
    with "3.prems" show ?thesis by auto
  qed
qed

lemma zstep_push_forest:
  assumes "event ev \<noteq> Return"
  shows "\<exists>dn fs. zdone z @ openTree [] (zframes z) = dn @ openTree [] fs
     \<and> zforest (zstep z (n, ev)) = dn @ openTree [TreeNode (newNodeInfo n ev) []] fs"
proof -
  obtain dn fs cs where pop:
      "zpopLoop (level (newNodeInfo n ev)) (zdone z) (zframes z) (zcalls z) = (dn, fs, cs)"
    by (metis prod_cases3)
  from zpopLoop_forest [OF pop] have "zdone z @ openTree [] (zframes z) = dn @ openTree [] fs"
    by simp
  moreover have "zforest (zstep z (n, ev)) = dn @ openTree [TreeNode (newNodeInfo n ev) []] fs"
    using assms pop by (simp add: zstep_def zforest_def Let_def)
  ultimately show ?thesis by blast
qed

lemma cores_push:
  assumes "event ev \<noteq> Return"
  shows "cores (zforest (zstep z (n, ev)))
     = cores (zforest z) @ [(''node-'' @ decimal n, method_name ev, depth ev, depth ev, True)]"
proof -
  from zstep_push_forest [OF assms, of z n] obtain dn fs where
      a: "zdone z @ openTree [] (zframes z) = dn @ openTree [] fs"
      and b: "zforest (zstep z (n, ev)) = dn @ openTree [TreeNode (newNodeInfo n ev) []] fs"
    by blast
  have "cores [TreeNode (newNodeInfo n ev) []] = cores []
      @ [(''node-'' @ decimal n, method_name ev, depth ev, depth ev, True)]"
    by (simp add: cores_def core_def)
  from cores_openTree [OF this, of fs]
  have c: "cores (openTree [TreeNode (newNodeInfo n ev) []] fs) = cores (openTree [] fs)
      @ [(''node-'' @ decimal n, method_name ev, depth ev, depth ev, True)]" .
  have "cores (zforest z) = cores (dn @ openTree [] fs)"
    by (simp only: zforest_def a)
  moreover have "cores (zforest (zstep z (n, ev)))
      = cores (dn @ openTree [TreeNode (newNodeInfo n ev) []] fs)"
    by (simp only: b)
  ultimately show ?thesis by (simp only: cores_append c append_assoc)
qed

lemma cores_merge:
  assumes "cores ys = cores xs"
  shows "cores (openTree ys (map (\<lambda>(b, i, ts). if b = a then (b, mergeInfo ev i, ts) else (b, i, ts)) fs))
     = cores (openTree xs fs)"
  using assms
proof (induction fs arbitrary: xs ys)
  case Nil
  then show ?case by simp
next
  case (Cons f fs)
  obtain b i ts where f: "f = (b, i, ts)" by (cases f)
  have c: "core (mergeInfo ev i) = core i" by (simp add: core_def)
  show ?case
  proof (cases "b = a")
    case True
    have "cores [TreeNode (mergeInfo ev i) (ts @ ys)] = cores [TreeNode i (ts @ xs)]"
      using Cons.prems c by (simp add: cores_node cores_append)
    from Cons.IH [OF this] True show ?thesis by (simp add: f)
  next
    case False
    have "cores [TreeNode i (ts @ ys)] = cores [TreeNode i (ts @ xs)]"
      using Cons.prems by (simp add: cores_node cores_append)
    from Cons.IH [OF this] False show ?thesis by (simp add: f)
  qed
qed

lemma cores_return:
  assumes "event ev = Return"
  shows "cores (zforest (zstep z (n, ev))) = cores (zforest z)"
proof (cases "zcalls z (callKey (depth ev) (method_name ev))")
  case None
  with assms show ?thesis by (simp add: zstep_def Let_def)
next
  case (Some a)
  with assms have "zforest (zstep z (n, ev)) = zdone z @ openTree []
      (map (\<lambda>(b, i, ts). if b = a then (b, mergeInfo ev i, ts) else (b, i, ts)) (zframes z))"
    by (simp add: zstep_def Let_def zforest_def)
  then show ?thesis
    using cores_merge [of "[]" "[]" a ev "zframes z"] by (simp add: zforest_def cores_append)
qed

lemma zrun_snoc: "zrun (evs @ [ev]) = zstep (zrun evs) (length evs, ev)"
  by (simp add: zrun_def enumerate_append_eq)

lemma runEvents_snoc: "runEvents (evs @ [ev]) = processEvent (runEvents evs) (length evs, ev)"
  by (simp add: runEvents_def enumerate_append_eq)

lemma eventCores_snoc:
  "eventCores 0 (evs @ [ev]) = eventCores 0 evs
     @ (if event ev \<noteq> Return
        then [(''node-'' @ decimal (length evs), method_name ev, depth ev, depth ev, True)] else [])"
  by (simp add: eventCores_def enumerate_append_eq)

lemma cores_zrun: "cores (zforest (zrun evs)) = eventCores 0 evs"
proof (induction evs rule: rev_induct)
  case Nil
  then show ?case by (simp add: zrun_def zinit_def zforest_def cores_def eventCores_def)
next
  case (snoc ev evs)
  then show ?case
    by (cases "event ev = Return") (simp_all add: zrun_snoc eventCores_snoc cores_push cores_return)
qed

section \<open>Reading the final heap\<close>

lemma those_map_Some:
  assumes "list_all2 (\<lambda>x u. g x = Some u) xs us"
  shows "those (map g xs) = Some us"
  using assms by (induction rule: list_all2_induct) simp_all

lemma collectNode_size: "u \<in> set ts \<Longrightarrow> length (collectNode u) \<le> length (collectNodes ts)"
  by (induction ts) auto

lemma readNode_repr:
  assumes "repr h A a t" and "length (collectNode t) \<le> fuel"
  shows "readNode fuel h a = Some t"
  using assms
proof (induction fuel arbitrary: a t)
  case 0
  then show ?case by (cases t) simp
next
  case (Suc fuel)
  from Suc.prems(1) obtain c i ts where t: "t = TreeNode i ts" and c: "h a = Some c" "cinfo c = i"
      and kids: "list_all2 (repr h A) (cchildren c) ts"
    by (auto elim: repr.cases)
  from Suc.prems(2) have size: "length (collectNodes ts) \<le> fuel" by (simp add: t)
  have "list_all2 (\<lambda>x u. readNode fuel h x = Some u) (cchildren c) ts"
  proof (rule list_all2_all_nthI)
    show "length (cchildren c) = length ts" using kids by (rule list_all2_lengthD)
  next
    fix k
    assume k: "k < length (cchildren c)"
    from list_all2_nthD [OF kids k] have r: "repr h A (cchildren c ! k) (ts ! k)" .
    from k list_all2_lengthD [OF kids] have "ts ! k \<in> set ts" by simp
    from collectNode_size [OF this] size have "length (collectNode (ts ! k)) \<le> fuel" by simp
    with r show "readNode fuel h (cchildren c ! k) = Some (ts ! k)" by (rule Suc.IH)
  qed
  then have "those (map (readNode fuel h) (cchildren c)) = Some ts" by (rule those_map_Some)
  with c show ?case by (simp add: t)
qed

lemma openTree_repr:
  assumes "framesOk h A ab fs"
    and "list_all2 (repr h UNIV) (case ab of None \<Rightarrow> [] | Some b \<Rightarrow> [b]) extra"
  shows "list_all2 (repr h UNIV)
     (case fs of [] \<Rightarrow> (case ab of None \<Rightarrow> [] | Some b \<Rightarrow> [b]) | _ # _ \<Rightarrow> [fst (last fs)])
     (openTree extra fs)"
  using assms
proof (induction fs arbitrary: ab extra)
  case Nil
  then show ?case by simp
next
  case (Cons f fs)
  obtain a i ts where f: "f = (a, i, ts)" by (cases f)
  from Cons.prems(1) obtain c kids where c: "h a = Some c" "cinfo c = i"
      "cchildren c = kids @ (case ab of None \<Rightarrow> [] | Some b \<Rightarrow> [b])"
      "list_all2 (repr h A) kids ts" and rest: "framesOk h A (Some a) fs"
    by (auto simp add: f)
  from c(4) have "list_all2 (repr h UNIV) kids ts" by (rule reprs_mono) simp
  then have "list_all2 (repr h UNIV) (cchildren c) (ts @ extra)"
    unfolding c(3) using Cons.prems(2) by (rule list_all2_appendI)
  with c(1,2) have "repr h UNIV a (TreeNode i (ts @ extra))"
    by (auto intro: repr.reprI)
  then have "list_all2 (repr h UNIV) (case Some a of None \<Rightarrow> [] | Some b \<Rightarrow> [b])
      [TreeNode i (ts @ extra)]"
    by simp
  from Cons.IH [OF rest this] show ?case
    by (cases fs) (simp_all add: f)
qed

lemma sim_forest:
  assumes "sim n s z"
  shows "list_all2 (repr (cells s) UNIV) (nodes s) (zforest z)"
proof -
  let ?A = "finished n (stack s)"
  from assms have frames: "framesOk (cells s) ?A None (zframes z)"
    and roots: "rootsOk (cells s) ?A (nodes s) (zdone z) (zframes z)"
    unfolding sim_def by blast+
  from roots obtain rs where rs:
      "nodes s = rs @ (case zframes z of [] \<Rightarrow> [] | _ # _ \<Rightarrow> [fst (last (zframes z))])"
      "list_all2 (repr (cells s) ?A) rs (zdone z)"
    unfolding rootsOk_def by blast
  from rs(2) have a: "list_all2 (repr (cells s) UNIV) rs (zdone z)" by (rule reprs_mono) simp
  have "list_all2 (repr (cells s) UNIV)
     (case zframes z of [] \<Rightarrow> (case None of None \<Rightarrow> [] | Some b \<Rightarrow> [b])
        | _ # _ \<Rightarrow> [fst (last (zframes z))])
     (openTree [] (zframes z))"
    using frames by (rule openTree_repr) simp
  then have b: "list_all2 (repr (cells s) UNIV)
     (case zframes z of [] \<Rightarrow> [] | _ # _ \<Rightarrow> [fst (last (zframes z))]) (openTree [] (zframes z))"
    by (cases "zframes z") simp_all
  from a b show ?thesis unfolding rs(1) zforest_def by (rule list_all2_appendI)
qed

lemma length_eventCores: "length (eventCores n evs) \<le> length evs"
proof -
  have "length (filter (\<lambda>(k, ev). event ev \<noteq> Return) (enumerate n evs))
      \<le> length (enumerate n evs)"
    by (rule length_filter_le)
  then show ?thesis by (simp add: eventCores_def)
qed

lemma readForest_repr:
  assumes "list_all2 (repr h UNIV) roots forest" and "length (collectNodes forest) \<le> fuel"
  shows "readForest fuel h roots = Some forest"
proof -
  have "list_all2 (\<lambda>x u. readNode fuel h x = Some u) roots forest"
  proof (rule list_all2_all_nthI)
    show "length roots = length forest" using assms(1) by (rule list_all2_lengthD)
  next
    fix k
    assume k: "k < length roots"
    from list_all2_nthD [OF assms(1) k] have r: "repr h UNIV (roots ! k) (forest ! k)" .
    from k list_all2_lengthD [OF assms(1)] have "forest ! k \<in> set forest" by simp
    from collectNode_size [OF this] assms(2) have "length (collectNode (forest ! k)) \<le> fuel"
      by simp
    with r show "readNode fuel h (roots ! k) = Some (forest ! k)" by (rule readNode_repr)
  qed
  then show ?thesis unfolding readForest_def by (rule those_map_Some)
qed

text \<open>
  The reconstruction returns, and what it returns is the forest of the applicative
  account.
\<close>

lemma transformTreeData_zrun: "transformTreeData evs = Some (zforest (zrun evs))"
proof -
  have "length (collectNodes (zforest (zrun evs))) = length (eventCores 0 evs)"
    using cores_zrun [of evs] by (metis cores_def length_map)
  with length_eventCores [of 0 evs]
  have "length (collectNodes (zforest (zrun evs))) \<le> Suc (length evs)" by simp
  with sim_forest [OF sim_run, of evs] show ?thesis
    unfolding transformTreeData_def Let_def by (rule readForest_repr)
qed

section \<open>The forest in pre-order is the sequence of calls\<close>

lemma flatten_collect:
  "(\<forall>u \<in> set (collectNode t). isExpanded (info u)) \<Longrightarrow> flattenTree_node t = collectNode t"
  "(\<forall>u \<in> set (collectNodes ts). isExpanded (info u)) \<Longrightarrow> flattenTree_traverse ts = collectNodes ts"
proof (induction t and ts rule: collectNode_collectNodes.induct)
  case (1 i cs)
  then show ?case by (cases cs) auto
next
  case 2
  then show ?case by simp
next
  case (3 node ns)
  then show ?case by auto
qed

lemma eventCores_expanded: "c \<in> set (eventCores n evs) \<Longrightarrow> snd (snd (snd (snd c)))"
  by (auto simp add: eventCores_def)

lemma zrun_expanded:
  assumes "u \<in> set (collectNodes (zforest (zrun evs)))"
  shows "isExpanded (info u)"
proof -
  from assms have "core (info u) \<in> set (cores (zforest (zrun evs)))"
    by (auto simp add: cores_def)
  then have "core (info u) \<in> set (eventCores 0 evs)" by (simp only: cores_zrun)
  from eventCores_expanded [OF this] show ?thesis by (simp add: core_def)
qed

lemma flattenTree_zrun: "flattenTree (zforest (zrun evs)) = collectNodes (zforest (zrun evs))"
  unfolding flattenTree_def by (rule flatten_collect(2)) (simp add: zrun_expanded)

lemma map_snd_filter_enumerate:
  "map snd (filter (\<lambda>(k, e). P e) (enumerate n evs)) = filter P evs"
  by (induction evs arbitrary: n) simp_all

lemma eventCores_pairs:
  "map (\<lambda>(i, m, d, l, x). (m, d)) (eventCores n evs)
     = map (\<lambda>e. (method_name e, depth e)) (filter (\<lambda>e. event e \<noteq> Return) evs)"
proof -
  have "map (\<lambda>(i, m, d, l, x). (m, d)) (eventCores n evs)
      = map (\<lambda>e. (method_name e, depth e))
          (map snd (filter (\<lambda>(k, e). event e \<noteq> Return) (enumerate n evs)))"
    by (simp add: eventCores_def case_prod_beta)
  then show ?thesis by (simp only: map_snd_filter_enumerate)
qed

lemma preorder_pairs:
  "map (\<lambda>t. (method_name (info t), depth (info t))) (collectNodes (zforest (zrun evs)))
     = map (\<lambda>e. (method_name e, depth e)) (filter (\<lambda>e. event e \<noteq> Return) evs)"
proof -
  have "map (\<lambda>t. (method_name (info t), depth (info t))) (collectNodes (zforest (zrun evs)))
      = map (\<lambda>(i, m, d, l, x). (m, d)) (cores (zforest (zrun evs)))"
    by (simp add: cores_def core_def)
  then show ?thesis by (simp only: cores_zrun eventCores_pairs)
qed

lemma nested_no_call_return: "nested opened evs \<Longrightarrow> e \<in> set evs \<Longrightarrow> event e \<noteq> CallReturn"
proof (induction evs arbitrary: opened)
  case Nil
  then show ?case by simp
next
  case (Cons x evs)
  show ?case
  proof (cases "event x")
    case Call
    with Cons show ?thesis by auto
  next
    case Return
    with Cons show ?thesis by (cases opened) auto
  next
    case CallReturn
    with Cons.prems show ?thesis by simp
  qed
qed

lemma nested_calls:
  assumes "perfectly_nested evs"
  shows "filter (\<lambda>e. event e \<noteq> Return) evs = filter (\<lambda>e. event e = Call) evs"
proof (rule filter_cong [OF refl])
  fix e assume "e \<in> set evs"
  with assms have "event e \<noteq> CallReturn"
    unfolding perfectly_nested_def by (rule nested_no_call_return)
  then show "(event e \<noteq> Return) = (event e = Call)" by (cases "event e") simp_all
qed

text \<open>
  C1. For every event sequence of perfectly nested, matched call/return pairs the
  reconstruction returns a forest, and the forest flattened in pre-order by \<open>flattenTree\<close>
  (node, then children in order, recursively) gives the (method name, depth) pairs of the
  input's \<open>call\<close> events, element for element and in order.
\<close>

theorem preorder_is_call_order:
  assumes "perfectly_nested evs"
  shows "\<exists>forest. transformTreeData evs = Some forest
     \<and> map (\<lambda>t. (method_name (info t), depth (info t))) (flattenTree forest)
       = map (\<lambda>e. (method_name e, depth e)) (filter (\<lambda>e. event e = Call) evs)"
proof -
  have "map (\<lambda>t. (method_name (info t), depth (info t))) (flattenTree (zforest (zrun evs)))
      = map (\<lambda>e. (method_name e, depth e)) (filter (\<lambda>e. event e = Call) evs)"
    by (simp only: flattenTree_zrun preorder_pairs nested_calls [OF assms])
  with transformTreeData_zrun [of evs] show ?thesis by blast
qed

theorem preorder_is_call_order_witness:
  "perfectly_nested nestedEvents
   \<and> (\<exists>forest. transformTreeData nestedEvents = Some forest
        \<and> map (\<lambda>t. (method_name (info t), depth (info t))) (flattenTree forest)
          = [(''a'', 0), (''b'', 1)])"
proof -
  have h: "perfectly_nested nestedEvents"
    by (simp add: perfectly_nested_def nestedEvents_def mkEvent_def mkReturn_def)
  have "map (\<lambda>e. (method_name e, depth e)) (filter (\<lambda>e. event e = Call) nestedEvents)
      = [(''a'', 0), (''b'', 1)]"
    by (simp add: nestedEvents_def mkEvent_def mkReturn_def)
  with preorder_is_call_order [OF h] h show ?thesis by simp
qed

section \<open>A child lies deeper than its parent\<close>

lemma kidsOk_append: "kidsOk l d (ts @ us) = (kidsOk l d ts \<and> kidsOk l d us)"
  by (induction ts) auto

lemma forestOk_append: "forestOk (ts @ us) = (forestOk ts \<and> forestOk us)"
  by (induction ts) auto

lemma framesLevels_top:
  "framesLevels ((a, i, ts) # fs) \<Longrightarrow> kidsOk (level i) (depth i) ts \<and> level i = depth i"
  by (cases fs) auto

lemma framesLevels_tail: "framesLevels (f # fs) \<Longrightarrow> framesLevels fs"
proof (cases fs)
  case Nil
  then show ?thesis by simp
next
  case (Cons g gs)
  assume "framesLevels (f # fs)"
  then show ?thesis
    unfolding Cons by (cases f, cases g) simp
qed

lemma zpopLoop_levels:
  assumes "zpopLoop lvl dn fs cs = (dn', fs', cs')" and "forestOk dn" and "framesLevels fs"
  shows "forestOk dn' \<and> framesLevels fs'
     \<and> (case fs' of [] \<Rightarrow> True | (a, i, ts) # _ \<Rightarrow> level i < lvl)"
  using assms
proof (induction lvl dn fs cs rule: zpopLoop.induct)
  case (1 lvl dn cs)
  then show ?case by simp
next
  case (2 lvl dn a i ts cs)
  show ?case
  proof (cases "lvl \<le> level i")
    case True
    with "2.prems"(1) have "zpopLoop lvl (dn @ [TreeNode i ts]) []
        (cs (callKey (depth i) (method_name i) := None)) = (dn', fs', cs')"
      by simp
    moreover have "forestOk (dn @ [TreeNode i ts])"
      using "2.prems"(2,3) by (auto simp add: forestOk_append)
    ultimately show ?thesis by (intro "2.IH" [OF True]) simp_all
  next
    case False
    with "2.prems" show ?thesis by auto
  qed
next
  case (3 lvl dn a i ts b j us fs cs)
  show ?case
  proof (cases "lvl \<le> level i")
    case True
    with "3.prems"(1) have "zpopLoop lvl dn ((b, j, us @ [TreeNode i ts]) # fs)
        (cs (callKey (depth i) (method_name i) := None)) = (dn', fs', cs')"
      by simp
    moreover from "3.prems"(3) have top: "kidsOk (level i) (depth i) ts" "level i = depth i"
        "level j < level i" and below: "framesLevels ((b, j, us) # fs)"
      by auto
    from framesLevels_top [OF below] have j: "kidsOk (level j) (depth j) us" "level j = depth j"
      by blast+
    have "kidsOk (level j) (depth j) (us @ [TreeNode i ts])"
      using top j by (simp add: kidsOk_append)
    with below j(2) have "framesLevels ((b, j, us @ [TreeNode i ts]) # fs)"
      by (cases fs) auto
    ultimately show ?thesis using "3.prems"(2) by (intro "3.IH" [OF True])
  next
    case False
    with "3.prems" show ?thesis by auto
  qed
qed

lemma framesLevels_merge:
  "framesLevels (map (\<lambda>(b, i, ts). if b = a then (b, mergeInfo ev i, ts) else (b, i, ts)) fs)
     = framesLevels fs"
  by (induction fs rule: framesLevels.induct) auto

lemma zstep_levels:
  assumes "forestOk (zdone z)" and "framesLevels (zframes z)"
  shows "forestOk (zdone (zstep z (n, ev))) \<and> framesLevels (zframes (zstep z (n, ev)))"
proof (cases "event ev = Return")
  case True
  with assms show ?thesis
    by (simp add: zstep_def Let_def framesLevels_merge split: option.splits)
next
  case False
  obtain dn fs cs where pop:
      "zpopLoop (level (newNodeInfo n ev)) (zdone z) (zframes z) (zcalls z) = (dn, fs, cs)"
    by (metis prod_cases3)
  from zpopLoop_levels [OF pop assms] have ok: "forestOk dn" "framesLevels fs"
      "case fs of [] \<Rightarrow> True | (a, i, ts) # _ \<Rightarrow> level i < level (newNodeInfo n ev)"
    by simp_all
  have "framesLevels ((n, newNodeInfo n ev, []) # fs)"
  proof (cases fs)
    case Nil
    then show ?thesis by simp
  next
    case (Cons f rest)
    obtain b j us where f: "f = (b, j, us)" by (cases f)
    from ok(2,3) show ?thesis by (simp add: Cons f)
  qed
  with ok(1) False pop show ?thesis by (simp add: zstep_def Let_def)
qed

lemma zrun_levels: "forestOk (zdone (zrun evs)) \<and> framesLevels (zframes (zrun evs))"
proof (induction evs rule: rev_induct)
  case Nil
  then show ?case by (simp add: zrun_def zinit_def)
next
  case (snoc ev evs)
  then show ?case by (simp add: zrun_snoc zstep_levels)
qed

lemma openTree_levels:
  assumes "framesLevels fs"
    and "case fs of [] \<Rightarrow> forestOk extra | (a, i, ts) # _ \<Rightarrow> kidsOk (level i) (depth i) extra"
  shows "forestOk (openTree extra fs)"
  using assms
proof (induction fs arbitrary: extra)
  case Nil
  then show ?case by simp
next
  case (Cons f fs)
  obtain a i ts where f: "f = (a, i, ts)" by (cases f)
  from framesLevels_top [OF Cons.prems(1) [unfolded f]]
  have top: "kidsOk (level i) (depth i) ts" "level i = depth i" by blast+
  from Cons.prems(2) have extra: "kidsOk (level i) (depth i) extra" by (simp add: f)
  have node: "nodeOk (TreeNode i (ts @ extra))"
    using top(1) extra by (simp add: kidsOk_append)
  have "case fs of [] \<Rightarrow> forestOk [TreeNode i (ts @ extra)]
      | (b, j, us) # _ \<Rightarrow> kidsOk (level j) (depth j) [TreeNode i (ts @ extra)]"
  proof (cases fs)
    case Nil
    with node show ?thesis by simp
  next
    case (Cons g rest)
    obtain b j us where g: "g = (b, j, us)" by (cases g)
    from Cons.prems(1) have lt: "level j < level i" and below: "framesLevels ((b, j, us) # rest)"
      by (simp_all add: f Cons g)
    from framesLevels_top [OF below] have "level j = depth j" by simp
    with lt top(2) node show ?thesis by (simp add: Cons g)
  qed
  from Cons.IH [OF framesLevels_tail [OF Cons.prems(1)] this] show ?case by (simp add: f)
qed

lemma zforest_levels: "forestOk (zforest (zrun evs))"
proof -
  from zrun_levels [of evs] have a: "forestOk (zdone (zrun evs))"
    and b: "framesLevels (zframes (zrun evs))"
    by simp_all
  have "forestOk (openTree [] (zframes (zrun evs)))"
    using b by (rule openTree_levels) (simp split: list.splits)
  with a show ?thesis by (simp add: zforest_def forestOk_append)
qed

text \<open>
  C9. In the forest that the reconstruction returns, every node that has a parent has a
  level strictly greater than the parent's level, and a depth strictly greater than the
  parent's depth.
\<close>

theorem child_deeper_than_parent:
  "\<exists>forest. transformTreeData evs = Some forest \<and> forestOk forest"
  using transformTreeData_zrun [of evs] zforest_levels [of evs] by blast
theorem child_deeper_than_parent_witness:
  "\<exists>forest. transformTreeData nestedEvents = Some forest \<and> forestOk forest
     \<and> map (\<lambda>t. (method_name (info t), level (info t), map (\<lambda>c. level (info c)) (children t)))
         forest = [(''a'', 0, [1])]"
proof -
  have e: "map_option
      (map (\<lambda>t. (method_name (info t), level (info t), map (\<lambda>c. level (info c)) (children t))))
      (transformTreeData nestedEvents) = Some [(''a'', 0, [1])]"
    by code_simp
  from child_deeper_than_parent [of nestedEvents] obtain forest
    where f: "transformTreeData nestedEvents = Some forest" "forestOk forest"
    by blast
  from e f(1) have m: "map (\<lambda>t. (method_name (info t), level (info t),
      map (\<lambda>c. level (info c)) (children t))) forest = [(''a'', 0, [1])]"
    by simp
  from f m show ?thesis by (intro exI [of _ forest] conjI)
qed

section \<open>Return events\<close>

lemma sim_calls: "zcalls (zrun evs) = callStack (runEvents evs)"
  using sim_run [of evs] by (simp add: sim_def)

lemma pending_cell:
  assumes "callStack (runEvents evs) k = Some a"
  shows "\<exists>node. cells (runEvents evs) a = Some node
     \<and> k = callKey (depth (cinfo node)) (method_name (cinfo node))"
proof -
  let ?s = "runEvents evs" and ?z = "zrun evs"
  from sim_run [of evs] have ok: "stackOk (length evs) (stack ?s) (callStack ?s) (zframes ?z)"
    and frames: "framesOk (cells ?s) (finished (length evs) (stack ?s)) None (zframes ?z)"
    unfolding sim_def by blast+
  from stackOkD(4) [OF ok] assms obtain i ts where m: "(a, i, ts) \<in> set (zframes ?z)"
      "k = callKey (depth i) (method_name i)"
    by blast
  from framesOk_cell [OF frames m(1)] m(2) show ?thesis by auto
qed

text \<open>
  C4. A trailing \<open>return\<close> event whose call key has no entry in the pending-return index
  \<open>callStack\<close> leaves every variable of the reconstruction as it was: no node is
  created, no node is changed. The reconstruction of the longer sequence returns (it
  does not throw), and it returns the forest of the sequence without that event.
\<close>

theorem unmatched_return_dropped:
  assumes "event r = Return"
    and "callStack (runEvents evs) (callKey (depth r) (method_name r)) = None"
  shows "runEvents (evs @ [r]) = runEvents evs
     \<and> (\<exists>forest. transformTreeData (evs @ [r]) = Some forest
          \<and> transformTreeData evs = Some forest)"
proof -
  have heap: "runEvents (evs @ [r]) = runEvents evs"
    using assms by (simp add: runEvents_snoc processEvent_def Let_def)
  have "zcalls (zrun evs) (callKey (depth r) (method_name r)) = None"
    using assms(2) by (simp only: sim_calls)
  then have "zrun (evs @ [r]) = zrun evs"
    using assms(1) by (simp add: zrun_snoc zstep_def Let_def)
  then have "transformTreeData (evs @ [r]) = Some (zforest (zrun evs))"
    using transformTreeData_zrun [of "evs @ [r]"] by simp
  with transformTreeData_zrun [of evs] heap show ?thesis by blast
qed

theorem unmatched_return_dropped_witness:
  "event (mkReturn ''b'' 1 (JNum 7) 3) = Return
   \<and> callStack (runEvents nestedEvents) (callKey 1 ''b'') = None
   \<and> runEvents (nestedEvents @ [mkReturn ''b'' 1 (JNum 7) 3]) = runEvents nestedEvents
   \<and> (\<exists>forest. transformTreeData (nestedEvents @ [mkReturn ''b'' 1 (JNum 7) 3]) = Some forest
        \<and> transformTreeData nestedEvents = Some forest)"
proof -
  let ?r = "mkReturn ''b'' 1 (JNum 7) 3"
  have h1: "event ?r = Return" by (simp add: mkReturn_def mkEvent_def)
  have k: "callKey (depth ?r) (method_name ?r) = callKey 1 ''b''"
    by (simp add: mkReturn_def mkEvent_def)
  have h2: "callStack (runEvents nestedEvents) (callKey 1 ''b'') = None" by code_simp
  from unmatched_return_dropped [of ?r nestedEvents, OF h1] h1 h2 show ?thesis
    unfolding k by blast
qed

lemma popLoop_deletes:
  assumes "popLoop h lvl st cs = (st', cs')" and "cs' k = Some a"
  shows "cs k = Some a"
  using assms
proof (induction h lvl st cs rule: popLoop.induct)
  case (1 h lvl cs)
  then show ?case by simp
next
  case (2 h lvl a0 st cs)
  show ?case
  proof (cases "h a0")
    case None
    with "2.prems" show ?thesis by simp
  next
    case (Some popped)
    show ?thesis
    proof (cases "lvl \<le> level (cinfo popped)")
      case True
      let ?cs = "cs (callKey (depth (cinfo popped)) (method_name (cinfo popped)) := None)"
      from "2.prems"(1) Some True have "popLoop h lvl st ?cs = (st', cs')" by simp
      from "2.IH" [OF Some True this "2.prems"(2)] show ?thesis by (simp split: if_splits)
    next
      case False
      with "2.prems" Some show ?thesis by simp
    qed
  qed
qed

lemma mostRecentCall_snoc_other:
  assumes "mostRecentCall evs k a" and "event ev = Call \<longrightarrow> eventKey ev \<noteq> k"
  shows "mostRecentCall (evs @ [ev]) k a"
proof -
  from assms(1) have a: "a < length evs" "event (evs ! a) = Call" "eventKey (evs ! a) = k"
    and later: "\<forall>j \<in> {Suc a ..< length evs}. event (evs ! j) = Call \<longrightarrow> eventKey (evs ! j) \<noteq> k"
    unfolding mostRecentCall_def by blast+
  have "event ((evs @ [ev]) ! j) = Call \<longrightarrow> eventKey ((evs @ [ev]) ! j) \<noteq> k"
    if "j \<in> {Suc a ..< length (evs @ [ev])}" for j
  proof (cases "j < length evs")
    case True
    with that later show ?thesis by (simp add: nth_append)
  next
    case False
    with that have "j = length evs" by simp
    with assms(2) show ?thesis by simp
  qed
  with a show ?thesis unfolding mostRecentCall_def by (simp add: nth_append)
qed

lemma mostRecentCall_snoc_new:
  assumes "event ev = Call"
  shows "mostRecentCall (evs @ [ev]) (eventKey ev) (length evs)"
  using assms by (simp add: mostRecentCall_def)

lemma pending_most_recent:
  assumes "callStack (runEvents evs) k = Some a"
  shows "mostRecentCall evs k a"
  using assms
proof (induction evs arbitrary: k a rule: rev_induct)
  case Nil
  then show ?case by (simp add: runEvents_def initState_def)
next
  case (snoc ev evs)
  let ?s = "runEvents evs"
  let ?n = "length evs"
  show ?case
  proof (cases "event ev = Return")
    case True
    have "callStack (processEvent ?s (?n, ev)) k = Some a \<Longrightarrow> callStack ?s k = Some a"
      using True by (auto simp add: processEvent_def Let_def split: option.splits if_splits)
    with snoc.prems have "callStack ?s k = Some a" by (simp add: runEvents_snoc)
    from snoc.IH [OF this] True show ?thesis by (intro mostRecentCall_snoc_other) simp_all
  next
    case False
    obtain st1 cs1 where pop:
        "popLoop (cells ?s) (level (newNodeInfo ?n ev)) (stack ?s) (callStack ?s) = (st1, cs1)"
      by (cases "popLoop (cells ?s) (level (newNodeInfo ?n ev)) (stack ?s) (callStack ?s)")
    have cs: "callStack (runEvents (evs @ [ev]))
        = (if event ev = Call then cs1 (eventKey ev \<mapsto> ?n) else cs1)"
      using False pop by (simp add: runEvents_snoc processEvent_def Let_def eventKey_def)
    show ?thesis
    proof (cases "event ev = Call \<and> eventKey ev = k")
      case True
      with snoc.prems cs have "a = ?n" by simp
      with True show ?thesis using mostRecentCall_snoc_new [of ev evs] by simp
    next
      case False
      with snoc.prems cs have "cs1 k = Some a" by (auto split: if_splits)
      from popLoop_deletes [OF pop this] have "callStack ?s k = Some a" .
      from snoc.IH [OF this] False show ?thesis by (intro mostRecentCall_snoc_other) auto
    qed
  qed
qed

lemma return_merges:
  assumes "event r = Return" and "callStack (runEvents evs) (eventKey r) = Some a"
  shows "\<exists>node. cells (runEvents evs) a = Some node
     \<and> cells (runEvents (evs @ [r])) = (cells (runEvents evs)) (a \<mapsto> mergeReturn r node)
     \<and> callStack (runEvents (evs @ [r])) = (callStack (runEvents evs)) (eventKey r := None)"
proof -
  from pending_cell [OF assms(2)] obtain node where "cells (runEvents evs) a = Some node"
    by blast
  with assms show ?thesis
    by (simp add: runEvents_snoc processEvent_def Let_def eventKey_def)
qed

lemma call_registers:
  assumes "event c = Call"
  shows "callStack (runEvents (evs @ [c])) (eventKey c) = Some (length evs)"
proof -
  let ?s = "runEvents evs"
  obtain st1 cs1 where pop:
      "popLoop (cells ?s) (level (newNodeInfo (length evs) c)) (stack ?s) (callStack ?s) = (st1, cs1)"
    by (cases "popLoop (cells ?s) (level (newNodeInfo (length evs) c)) (stack ?s) (callStack ?s)")
  with assms show ?thesis
    by (simp add: runEvents_snoc processEvent_def Let_def eventKey_def)
qed

text \<open>
  C8. The pending-return index has one slot per call key. Once a \<open>call\<close> event has been
  processed, the slot of its key refers to the node of that call, whatever earlier call
  of the same key was still open. Whenever the slot of a \<open>return\<close> event's key is
  occupied, it refers to the most recent \<open>call\<close> event with that key; the \<open>return\<close> writes
  its \<open>return_value\<close>, \<open>end_time\<close> and \<open>duration\<close> into the node of that call, changes no
  other node (so never the node of an earlier call), creates no node and empties the
  slot.
\<close>

theorem return_goes_to_latest_call:
  "(event c = Call \<longrightarrow>
      callStack (runEvents (pre @ [c])) (eventKey c) = Some (length pre))
   \<and> (event r = Return \<and> callStack (runEvents evs) (eventKey r) = Some a \<longrightarrow>
      mostRecentCall evs (eventKey r) a
      \<and> (\<exists>node. cells (runEvents evs) a = Some node
            \<and> cells (runEvents (evs @ [r])) = (cells (runEvents evs)) (a \<mapsto> mergeReturn r node))
      \<and> nodes (runEvents (evs @ [r])) = nodes (runEvents evs)
      \<and> callStack (runEvents (evs @ [r])) (eventKey r) = None)"
proof (intro conjI impI)
  assume "event c = Call"
  then show "callStack (runEvents (pre @ [c])) (eventKey c) = Some (length pre)"
    by (rule call_registers)
next
  assume a: "event r = Return \<and> callStack (runEvents evs) (eventKey r) = Some a"
  then have r: "event r = Return" and p: "callStack (runEvents evs) (eventKey r) = Some a"
    by simp_all
  from p show "mostRecentCall evs (eventKey r) a" by (rule pending_most_recent)
  from return_merges [OF r p] obtain node where m: "cells (runEvents evs) a = Some node"
      "cells (runEvents (evs @ [r])) = (cells (runEvents evs)) (a \<mapsto> mergeReturn r node)"
      "callStack (runEvents (evs @ [r])) = (callStack (runEvents evs)) (eventKey r := None)"
    by blast
  from m(1,2) show "\<exists>node. cells (runEvents evs) a = Some node
      \<and> cells (runEvents (evs @ [r])) = (cells (runEvents evs)) (a \<mapsto> mergeReturn r node)"
    by blast
  from m(3) show "callStack (runEvents (evs @ [r])) (eventKey r) = None" by simp
  show "nodes (runEvents (evs @ [r])) = nodes (runEvents evs)"
    using r by (simp add: runEvents_snoc processEvent_def Let_def split: option.splits)
qed

theorem return_goes_to_latest_call_witness:
  "callStack (runEvents [mkEvent Call ''a'' 0, mkEvent Call ''a'' 0]) (callKey 0 ''a'') = Some 1
   \<and> mostRecentCall [mkEvent Call ''a'' 0, mkEvent Call ''a'' 0] (callKey 0 ''a'') 1
   \<and> (\<exists>node. cells (runEvents [mkEvent Call ''a'' 0, mkEvent Call ''a'' 0]) 1 = Some node
        \<and> cells (runEvents sameKeyEvents)
          = (cells (runEvents [mkEvent Call ''a'' 0, mkEvent Call ''a'' 0]))
              (1 \<mapsto> mergeReturn (mkReturn ''a'' 0 (JNum 5) 2) node))
   \<and> map_option (map (\<lambda>t. (node_id (info t), return_value (info t), duration (info t))))
        (transformTreeData sameKeyEvents)
     = Some [(''node-0'', JNull, None), (''node-1'', JNum 5, Some 2)]"
proof -
  let ?c = "mkEvent Call ''a'' 0"
  let ?r = "mkReturn ''a'' 0 (JNum 5) 2"
  have c: "event ?c = Call" by (simp add: mkEvent_def)
  have r: "event ?r = Return" by (simp add: mkReturn_def mkEvent_def)
  have k: "eventKey ?c = callKey 0 ''a''" "eventKey ?r = callKey 0 ''a''"
    by (simp_all add: eventKey_def mkReturn_def mkEvent_def)
  have e: "sameKeyEvents = [?c, ?c] @ [?r]" by (simp add: sameKeyEvents_def)
  from return_goes_to_latest_call [of ?c "[?c]"] c
  have slot: "callStack (runEvents [?c, ?c]) (callKey 0 ''a'') = Some 1"
    unfolding k by simp
  from return_goes_to_latest_call [of ?c "[]" ?r "[?c, ?c]" 1] r slot
  have "mostRecentCall [?c, ?c] (callKey 0 ''a'') 1
      \<and> (\<exists>node. cells (runEvents [?c, ?c]) 1 = Some node
            \<and> cells (runEvents ([?c, ?c] @ [?r]))
              = (cells (runEvents [?c, ?c])) (1 \<mapsto> mergeReturn ?r node))"
    unfolding k by blast
  moreover have "map_option (map (\<lambda>t. (node_id (info t), return_value (info t), duration (info t))))
        (transformTreeData sameKeyEvents)
      = Some [(''node-0'', JNull, None), (''node-1'', JNum 5, Some 2)]"
    by code_simp
  ultimately show ?thesis using slot unfolding e by blast
qed

section \<open>Node ids\<close>

lemma digit_inj: "a < 10 \<Longrightarrow> b < 10 \<Longrightarrow> digit a = digit b \<Longrightarrow> a = b"
proof -
  assume a: "a < 10" and b: "b < 10" and e: "digit a = digit b"
  from e have "of_char (digit a) = (of_char (digit b) :: nat)" by simp
  then have "(48 + a) mod 256 = (48 + b) mod 256" by (simp add: digit_def)
  with a b show "a = b" by simp
qed

lemma decimal_nonempty: "decimal n \<noteq> []"
  by (subst decimal.simps) simp

lemma decimal_inj: "decimal n = decimal m \<Longrightarrow> n = m"
proof (induction n arbitrary: m rule: decimal.induct)
  case (1 n)
  show ?case
  proof (cases "n < 10")
    case True
    note n = this
    show ?thesis
    proof (cases "m < 10")
      case True
      from "1.prems" n True have "digit n = digit m"
        by (simp add: decimal.simps [of n] decimal.simps [of m])
      with n True show ?thesis by (rule digit_inj)
    next
      case False
      from "1.prems" n False have "[digit n] = decimal (m div 10) @ [digit (m mod 10)]"
        by (simp add: decimal.simps [of n] decimal.simps [of m])
      then have "decimal (m div 10) = []" by simp
      with decimal_nonempty show ?thesis by blast
    qed
  next
    case False
    note n = this
    show ?thesis
    proof (cases "m < 10")
      case True
      from "1.prems" n True have "decimal (n div 10) @ [digit (n mod 10)] = [digit m]"
        by (simp add: decimal.simps [of n] decimal.simps [of m])
      then have "decimal (n div 10) = []" by simp
      with decimal_nonempty show ?thesis by blast
    next
      case False
      from "1.prems" n False
      have "decimal (n div 10) @ [digit (n mod 10)] = decimal (m div 10) @ [digit (m mod 10)]"
        by (simp add: decimal.simps [of n] decimal.simps [of m])
      then have d: "decimal (n div 10) = decimal (m div 10)" "digit (n mod 10) = digit (m mod 10)"
        by simp_all
      from "1.IH" [OF n d(1)] have "n div 10 = m div 10" .
      moreover from d(2) have "n mod 10 = m mod 10" by (intro digit_inj) simp_all
      ultimately show ?thesis by (metis div_mult_mod_eq)
    qed
  qed
qed

lemma node_id_inj: "''node-'' @ decimal n = ''node-'' @ decimal m \<longleftrightarrow> n = m"
  using decimal_inj by auto

section \<open>Which nodes have children\<close>

lemma shape_append: "shape (xs @ ys) = shape xs @ shape ys"
  by (simp add: shape_def collectNodes_append)

lemma shape_node: "shape [TreeNode i ts] = (node_id i, level i, ts = []) # shape ts"
  by (simp add: shape_def)

lemma shape_openTree:
  assumes "xs \<noteq> []"
  shows "shape (openTree xs fs) = spine fs @ shape xs"
  using assms
proof (induction fs arbitrary: xs)
  case Nil
  then show ?case by simp
next
  case (Cons f fs)
  obtain a i ts where f: "f = (a, i, ts)" by (cases f)
  have "shape (openTree [TreeNode i (ts @ xs)] fs) = spine fs @ shape [TreeNode i (ts @ xs)]"
    by (rule Cons.IH) simp
  with Cons.prems show ?case by (simp add: f shape_node shape_append)
qed

lemma shape_openTree_nil:
  "shape (openTree [] ((a, i, ts) # fs)) = spine fs @ (node_id i, level i, ts = []) # shape ts"
  using shape_openTree [of "[TreeNode i ts]" fs] by (simp add: shape_node)

lemma shape_open_nonempty:
  assumes "topNonempty fs"
  shows "shape (openTree [] fs) = spine fs"
proof (cases fs)
  case Nil
  then show ?thesis by (simp add: shape_def)
next
  case (Cons f rest)
  obtain a i ts where f: "f = (a, i, ts)" by (cases f)
  from assms have "ts \<noteq> []" by (simp add: topNonempty_def Cons f)
  then show ?thesis by (simp add: Cons f shape_openTree_nil del: openTree.simps)
qed

lemma spine_merge:
  "spine (map (\<lambda>(b, i, ts). if b = a then (b, mergeInfo ev i, ts) else (b, i, ts)) fs) = spine fs"
  by (induction fs) auto

lemma shape_merge:
  "shape (openTree [] (map (\<lambda>(b, i, ts). if b = a then (b, mergeInfo ev i, ts) else (b, i, ts)) fs))
     = shape (openTree [] fs)"
proof (cases fs)
  case Nil
  then show ?thesis by simp
next
  case (Cons f rest)
  obtain b i ts where f: "f = (b, i, ts)" by (cases f)
  show ?thesis
    by (cases "b = a") (simp_all add: Cons f shape_openTree_nil spine_merge del: openTree.simps)
qed

lemma shape_return:
  assumes "event ev = Return"
  shows "shape (zforest (zstep z (n, ev))) = shape (zforest z)"
  using assms
  by (simp add: zstep_def Let_def zforest_def shape_append shape_merge split: option.splits)

lemma zpopLoop_top:
  assumes "zpopLoop lvl dn fs cs = (dn', fs', cs')" and "topNonempty fs"
  shows "topNonempty fs'"
  using assms
proof (induction lvl dn fs cs rule: zpopLoop.induct)
  case (1 lvl dn cs)
  then show ?case by simp
next
  case (2 lvl dn a i ts cs)
  show ?case
  proof (cases "lvl \<le> level i")
    case True
    with "2.prems"(1) have "zpopLoop lvl (dn @ [TreeNode i ts]) []
        (cs (callKey (depth i) (method_name i) := None)) = (dn', fs', cs')"
      by simp
    then have "fs' = []" by simp
    then show ?thesis by (simp add: topNonempty_def)
  next
    case False
    with "2.prems" show ?thesis by auto
  qed
next
  case (3 lvl dn a i ts b j us fs cs)
  show ?case
  proof (cases "lvl \<le> level i")
    case True
    with "3.prems"(1) have "zpopLoop lvl dn ((b, j, us @ [TreeNode i ts]) # fs)
        (cs (callKey (depth i) (method_name i) := None)) = (dn', fs', cs')"
      by simp
    from "3.IH" [OF True this] show ?thesis by (simp add: topNonempty_def)
  next
    case False
    with "3.prems" show ?thesis by auto
  qed
qed

text \<open>Either nothing is popped and the top stays below the new level, or the top is popped.\<close>

lemma zpopLoop_cases:
  assumes "zpopLoop lvl dn ((a, i, ts) # fs) cs = (dn', fs', cs')"
  shows "(level i < lvl \<and> dn' = dn \<and> fs' = (a, i, ts) # fs)
     \<or> (lvl \<le> level i \<and> topNonempty fs')"
proof (cases "lvl \<le> level i")
  case False
  with assms show ?thesis by (cases fs) auto
next
  case True
  have "topNonempty fs'"
  proof (cases fs)
    case Nil
    with assms True have "fs' = []" by simp
    then show ?thesis by (simp add: topNonempty_def)
  next
    case (Cons g rest)
    obtain b j us where g: "g = (b, j, us)" by (cases g)
    from assms True have "zpopLoop lvl dn ((b, j, us @ [TreeNode i ts]) # rest)
        (cs (callKey (depth i) (method_name i) := None)) = (dn', fs', cs')"
      by (simp add: Cons g)
    then show ?thesis by (rule zpopLoop_top) (simp add: topNonempty_def)
  qed
  with True show ?thesis by simp
qed

lemma notDeeper_append: "notDeeper (xs @ y # ys) l = notDeeper (xs @ [y]) l"
  by (cases xs) (simp_all add: notDeeper_def split: prod.splits)

lemma shapeSpec_append:
  "shapeSpec (xs @ y # ys) = take (length xs) (shapeSpec (xs @ [y])) @ shapeSpec (y # ys)"
proof (induction xs)
  case Nil
  then show ?case by simp
next
  case (Cons x xs)
  obtain i l where x: "x = (i, l)" by (cases x)
  from Cons notDeeper_append [of xs y ys l] show ?case by (simp add: x)
qed

lemma length_shapeSpec: "length (shapeSpec xs) = length xs"
  by (induction xs rule: shapeSpec.induct) simp_all

lemma created_snoc:
  "created 0 (evs @ [ev]) = created 0 evs
     @ (if event ev \<noteq> Return then [(''node-'' @ decimal (length evs), depth ev)] else [])"
  by (simp add: created_def eventCores_snoc)

lemma shape_push:
  assumes ev: "event ev \<noteq> Return"
    and sh: "shape (zforest z) = shapeSpec l"
    and top: "topLast z l"
  shows "shape (zforest (zstep z (n, ev))) = shapeSpec (l @ [(''node-'' @ decimal n, depth ev)])"
proof -
  let ?node = "newNodeInfo n ev"
  let ?new = "(''node-'' @ decimal n, depth ev)"
  obtain dn fs cs where pop:
      "zpopLoop (level ?node) (zdone z) (zframes z) (zcalls z) = (dn, fs, cs)"
    by (metis prod_cases3)
  have after: "zforest (zstep z (n, ev)) = dn @ openTree [TreeNode ?node []] fs"
    using ev pop by (simp add: zstep_def zforest_def Let_def)
  have before: "zforest z = dn @ openTree [] fs"
    using zpopLoop_forest [OF pop] by (simp add: zforest_def)
  have sh_after: "shape (zforest (zstep z (n, ev)))
      = shape dn @ spine fs @ [(''node-'' @ decimal n, depth ev, True)]"
    unfolding after by (simp add: shape_append shape_openTree shape_node) (simp add: shape_def)
  show ?thesis
  proof (cases "zframes z")
    case Nil
    with top have l: "l = []" by (simp add: topLast_def)
    from pop Nil have "dn = zdone z" "fs = []" by simp_all
    with before sh l have "shape dn = []" by simp
    with \<open>fs = []\<close> show ?thesis by (simp add: sh_after l notDeeper_def)
  next
    case (Cons f rest)
    obtain a i ts where f: "f = (a, i, ts)" by (cases f)
    from top Cons f have ts: "ts = []" and l: "l \<noteq> []" "last l = (node_id i, level i)"
      by (simp_all add: topLast_def)
    from l obtain l0 where l0: "l = l0 @ [(node_id i, level i)]"
      by (metis append_butlast_last_id)
    let ?p = "take (length l0) (shapeSpec (l0 @ [(node_id i, level i)]))"
    have spec_before: "shapeSpec l = ?p @ [(node_id i, level i, True)]"
      using shapeSpec_append [of l0 "(node_id i, level i)" "[]"] by (simp add: l0 notDeeper_def)
    have spec_after: "shapeSpec (l @ [?new])
        = ?p @ [(node_id i, level i, depth ev \<le> level i), (''node-'' @ decimal n, depth ev, True)]"
      using shapeSpec_append [of l0 "(node_id i, level i)" "[?new]"]
      by (simp add: l0 notDeeper_def)
    from zpopLoop_cases [OF pop [unfolded Cons f]]
    show ?thesis
    proof
      assume keep: "level i < level ?node \<and> dn = zdone z \<and> fs = (a, i, ts) # rest"
      then have fs: "fs = (a, i, []) # rest" and lt: "level i < depth ev" using ts by simp_all
      have "shape (zforest z) = shape dn @ spine rest @ [(node_id i, level i, True)]"
        unfolding before fs by (simp add: shape_append shape_openTree_nil del: openTree.simps)
            (simp add: shape_def)
      with sh spec_before have "shape dn @ spine rest = ?p" by simp
      moreover have "spine fs = spine rest @ [(node_id i, level i, False)]"
        by (simp add: fs shape_def)
      ultimately have "shape (zforest (zstep z (n, ev)))
          = ?p @ [(node_id i, level i, False), (''node-'' @ decimal n, depth ev, True)]"
        unfolding sh_after by (simp add: append_assoc [symmetric] del: append_assoc)
      with lt show ?thesis unfolding spec_after by simp
    next
      assume popped: "level ?node \<le> level i \<and> topNonempty fs"
      then have le: "depth ev \<le> level i" and ne: "topNonempty fs" by simp_all
      have "shape (zforest z) = shape dn @ spine fs"
        unfolding before by (simp add: shape_append shape_open_nonempty [OF ne])
      with sh spec_before have "shape dn @ spine fs = ?p @ [(node_id i, level i, True)]" by simp
      then have "shape (zforest (zstep z (n, ev)))
          = ?p @ [(node_id i, level i, True), (''node-'' @ decimal n, depth ev, True)]"
        unfolding sh_after by (simp add: append_assoc [symmetric] del: append_assoc)
      with le show ?thesis unfolding spec_after by simp
    qed
  qed
qed

lemma topLast_push:
  assumes "event ev \<noteq> Return"
  shows "topLast (zstep z (n, ev)) (l @ [(''node-'' @ decimal n, depth ev)])"
proof -
  obtain dn fs cs where
      "zpopLoop (level (newNodeInfo n ev)) (zdone z) (zframes z) (zcalls z) = (dn, fs, cs)"
    by (metis prod_cases3)
  with assms show ?thesis by (simp add: zstep_def Let_def topLast_def)
qed

lemma topLast_return:
  assumes "event ev = Return" and "topLast z l"
  shows "topLast (zstep z (n, ev)) l"
proof (cases "zframes z")
  case Nil
  with assms show ?thesis by (simp add: zstep_def Let_def topLast_def split: option.splits)
next
  case (Cons f rest)
  obtain a i ts where f: "f = (a, i, ts)" by (cases f)
  from assms show ?thesis
    by (auto simp add: zstep_def Let_def topLast_def Cons f split: option.splits)
qed

lemma shape_zrun:
  "shape (zforest (zrun evs)) = shapeSpec (created 0 evs) \<and> topLast (zrun evs) (created 0 evs)"
proof (induction evs rule: rev_induct)
  case Nil
  then show ?case
    by (simp add: zrun_def zinit_def zforest_def shape_def created_def eventCores_def topLast_def)
next
  case (snoc ev evs)
  then have sh: "shape (zforest (zrun evs)) = shapeSpec (created 0 evs)"
    and top: "topLast (zrun evs) (created 0 evs)"
    by simp_all
  show ?case
  proof (cases "event ev = Return")
    case True
    with sh top show ?thesis
      by (simp add: zrun_snoc created_snoc shape_return topLast_return)
  next
    case False
    from shape_push [OF False sh top, of "length evs"] topLast_push [OF False]
    show ?thesis by (simp add: zrun_snoc created_snoc False)
  qed
qed

lemma created_Cons:
  "created n (e # evs)
     = (if event e \<noteq> Return then [(''node-'' @ decimal n, depth e)] else []) @ created (Suc n) evs"
  by (simp add: created_def eventCores_def)

lemma created_append: "created n (xs @ ys) = created n xs @ created (n + length xs) ys"
  by (induction xs arbitrary: n) (simp_all add: created_Cons, simp add: created_def eventCores_def)

lemma created_ids:
  assumes "(j, l) \<in> set (created n evs)"
  shows "\<exists>k. n \<le> k \<and> k < n + length evs \<and> j = ''node-'' @ decimal k"
  using assms
proof (induction evs arbitrary: n)
  case Nil
  then show ?case by (simp add: created_def eventCores_def)
next
  case (Cons e evs)
  from Cons.prems have "(j, l) = (''node-'' @ decimal n, depth e) \<or> (j, l) \<in> set (created (Suc n) evs)"
    by (auto simp add: created_Cons split: if_splits)
  then show ?case
  proof
    assume "(j, l) = (''node-'' @ decimal n, depth e)"
    then show ?thesis by auto
  next
    assume "(j, l) \<in> set (created (Suc n) evs)"
    from Cons.IH [OF this] obtain k where "Suc n \<le> k" "k < Suc n + length evs"
        "j = ''node-'' @ decimal k"
      by blast
    then show ?thesis by (intro exI [of _ k]) simp
  qed
qed

lemma notDeeper_find:
  "notDeeper (created n evs) l
     = (case find (\<lambda>e. event e \<noteq> Return) evs of None \<Rightarrow> True | Some e \<Rightarrow> depth e \<le> l)"
  by (induction evs arbitrary: n) (simp_all add: created_Cons notDeeper_def, simp add: created_def eventCores_def)

lemma fst_shapeSpec: "map fst (shapeSpec xs) = map fst xs"
  by (induction xs rule: shapeSpec.induct) simp_all

lemma filter_none:
  assumes "\<And>t. t \<in> set ns \<Longrightarrow> \<not> P t"
  shows "filter P ns = []"
  using assms by (induction ns) auto

text \<open>The node of a create-event: there is one, and whether it has children.\<close>

lemma node_of_event:
  assumes i: "i < length evs" and ev: "event (evs ! i) \<noteq> Return"
  shows "\<exists>t. nodesOfEvent i (zforest (zrun evs)) = [t]
     \<and> level (info t) = depth (evs ! i)
     \<and> (children t = [] \<longleftrightarrow>
          (case nextCreate i evs of None \<Rightarrow> True | Some e \<Rightarrow> depth e \<le> depth (evs ! i)))"
proof -
  let ?pre = "take i evs" and ?e = "evs ! i" and ?post = "drop (Suc i) evs"
  let ?x = "(''node-'' @ decimal i, depth ?e)"
  let ?A = "created 0 ?pre" and ?B = "created (Suc i) ?post"
  let ?g = "\<lambda>t. (node_id (info t), level (info t), children t = [])"
  let ?N = "collectNodes (zforest (zrun evs))"
  have split: "evs = ?pre @ ?e # ?post" using i by (simp add: id_take_nth_drop)
  have len: "length ?pre = i" using i by simp
  have "created 0 evs = created 0 (?pre @ ?e # ?post)" using split by simp
  also have "\<dots> = ?A @ ?x # ?B"
    using ev len by (simp only: created_append created_Cons) simp
  finally have cr: "created 0 evs = ?A @ ?x # ?B" .
  let ?P = "take (length ?A) (shapeSpec (?A @ [?x]))"
  have "map ?g ?N = shapeSpec (created 0 evs)"
    using shape_zrun [of evs] by (simp add: shape_def)
  also have "\<dots> = ?P @ (''node-'' @ decimal i, depth ?e, notDeeper ?B (depth ?e)) # shapeSpec ?B"
    unfolding cr using shapeSpec_append [of ?A ?x ?B] by simp
  finally have m: "map ?g ?N
      = ?P @ (''node-'' @ decimal i, depth ?e, notDeeper ?B (depth ?e)) # shapeSpec ?B" .
  then obtain n1 t n2 where n: "?N = n1 @ t # n2" and n1: "map ?g n1 = ?P"
      and t: "?g t = (''node-'' @ decimal i, depth ?e, notDeeper ?B (depth ?e))"
      and n2: "map ?g n2 = shapeSpec ?B"
    by (auto simp add: map_eq_append_conv map_eq_Cons_conv)
  have ids1: "node_id (info u) \<noteq> ''node-'' @ decimal i" if "u \<in> set n1" for u
  proof -
    from that have "node_id (info u) \<in> set (map fst (map ?g n1))" by force
    then have "node_id (info u) \<in> set (take (length ?A) (map fst (shapeSpec (?A @ [?x]))))"
      unfolding n1 by (simp add: take_map)
    then have "node_id (info u) \<in> set (map fst ?A)"
      by (simp add: fst_shapeSpec)
    then obtain l where "(node_id (info u), l) \<in> set ?A" by auto
    from created_ids [OF this] obtain k where "k < length ?pre" "node_id (info u) = ''node-'' @ decimal k"
      by auto
    with len show ?thesis using decimal_inj [of k i] by auto
  qed
  have ids2: "node_id (info u) \<noteq> ''node-'' @ decimal i" if "u \<in> set n2" for u
  proof -
    from that have "node_id (info u) \<in> set (map fst (map ?g n2))" by force
    then have "node_id (info u) \<in> set (map fst ?B)"
      unfolding n2 by (simp add: fst_shapeSpec)
    then obtain l where "(node_id (info u), l) \<in> set ?B" by auto
    from created_ids [OF this] obtain k where "Suc i \<le> k" "node_id (info u) = ''node-'' @ decimal k"
      by auto
    then show ?thesis using decimal_inj [of k i] by auto
  qed
  have f1: "filter (\<lambda>u. node_id (info u) = ''node-'' @ decimal i) n1 = []"
    by (rule filter_none) (rule ids1)
  have f2: "filter (\<lambda>u. node_id (info u) = ''node-'' @ decimal i) n2 = []"
    by (rule filter_none) (rule ids2)
  from t have tid: "node_id (info t) = ''node-'' @ decimal i" by simp
  have one: "nodesOfEvent i (zforest (zrun evs)) = [t]"
    unfolding nodesOfEvent_def n
    by (simp only: filter_append filter.simps f1 f2 tid simp_thms if_True append_Nil)
  from t have "children t = [] \<longleftrightarrow> notDeeper ?B (depth ?e)" by simp
  then have kids: "children t = [] \<longleftrightarrow>
      (case nextCreate i evs of None \<Rightarrow> True | Some e \<Rightarrow> depth e \<le> depth ?e)"
    by (simp only: notDeeper_find nextCreate_def)
  from t have "level (info t) = depth ?e" by simp
  with one kids show ?thesis by blast
qed

text \<open>
  C2, as stated, fails: a \<open>call_return\<close> node is pushed on the stack like any other, so a
  following deeper event is attached to it. In \<open>deeperEvents\<close> the node of the
  \<open>call_return\<close> event \<open>x\<close> has the node of \<open>y\<close> as its child.
\<close>

theorem call_return_childless_counterexample:
  "transformTreeData deeperEvents
   = Some [TreeNode (newNodeInfo 0 (mkEvent CallReturn ''x'' 0))
             [TreeNode (newNodeInfo 1 (mkEvent CallReturn ''y'' 1)) []],
           TreeNode (newNodeInfo 2 (mkEvent CallReturn ''z'' 0)) []]"
  by code_simp

text \<open>
  C2, amended. For every event sequence and every \<open>call_return\<close> event in it, the
  reconstruction produces exactly one node for that event, and that node has an empty
  children sequence if and only if the next \<open>call\<close> or \<open>call_return\<close> event of the
  sequence, if there is one, has a depth that is not greater than the event's depth.
\<close>

theorem call_return_node:
  assumes "i < length evs" and "event (evs ! i) = CallReturn"
  shows "\<exists>forest t. transformTreeData evs = Some forest \<and> nodesOfEvent i forest = [t]
     \<and> (children t = [] \<longleftrightarrow>
          (case nextCreate i evs of None \<Rightarrow> True | Some e \<Rightarrow> depth e \<le> depth (evs ! i)))"
proof -
  from assms(2) have "event (evs ! i) \<noteq> Return" by simp
  from node_of_event [OF assms(1) this] obtain t where
      "nodesOfEvent i (zforest (zrun evs)) = [t]"
      "children t = [] \<longleftrightarrow>
          (case nextCreate i evs of None \<Rightarrow> True | Some e \<Rightarrow> depth e \<le> depth (evs ! i))"
    by blast
  with transformTreeData_zrun [of evs] show ?thesis by blast
qed

theorem call_return_node_witness:
  "1 < length deeperEvents \<and> event (deeperEvents ! 1) = CallReturn
   \<and> (\<exists>forest t. transformTreeData deeperEvents = Some forest \<and> nodesOfEvent 1 forest = [t]
        \<and> children t = [])"
proof -
  have h1: "1 < length deeperEvents" by (simp add: deeperEvents_def)
  have h2: "event (deeperEvents ! 1) = CallReturn" by (simp add: deeperEvents_def mkEvent_def)
  have n: "(case nextCreate 1 deeperEvents of None \<Rightarrow> True
      | Some e \<Rightarrow> depth e \<le> depth (deeperEvents ! 1))"
    by (simp add: nextCreate_def deeperEvents_def mkEvent_def)
  from call_return_node [OF h1 h2] n h1 h2 show ?thesis by blast
qed

end
